theory Spec2Isabelle
  imports Main "HOL-Library.Word"
begin

unbundle bit_operations_syntax

section \<open>The linear-probing kernel of \<open>linear.hpp\<close>\<close>

subsection \<open>Data model\<close>

text \<open>
  \<open>size_t\<close> is a 64-bit unsigned integer (\<open>upper_power_of_two\<close> shifts by 32,
  "adjusted for 64-bit"); all index arithmetic wraps.
\<close>

type_synonym size_t = "64 word"

text \<open>
  A \<open>bucket_type\<close> is the flag \<open>has_value\<close> next to raw storage for one \<open>value_type\<close>.
  Placement-new and the explicit destructor call always go together with setting and
  clearing the flag, so a bucket is modelled as an optional entry: \<open>Some v\<close> is a bucket
  whose flag is set and whose storage holds the constructed entry \<open>v\<close>; \<open>None\<close> is a bucket
  whose flag is clear and whose storage holds no object. A value-initialised bucket
  (\<open>bucket_vector(n)\<close>, \<open>resize\<close>) is \<open>None\<close>.
\<close>

type_synonym 'v bucket_type = "'v option"

abbreviation has_value :: "'v bucket_type \<Rightarrow> bool" where
  "has_value b \<equiv> b \<noteq> None"

text \<open>
  Undefined behaviour of the C++ is an error value: an unchecked \<open>buckets_[i]\<close> past the
  end of the vector, a destructor call or a read through \<open>memory()\<close> on storage that holds
  no object, and a read of the uninitialised local \<open>erased_index\<close>.
\<close>

datatype error = Out_Of_Range nat | No_Object nat | Uninitialised

text \<open>
  The load factors are \<open>float\<close>s. A binary32 value is kept as the dyadic rational
  \<open>mant / 2 ^ nexp\<close>; the constructor's constants are \<open>0.3f = 10066330 / 2^25\<close> and
  \<open>0.7f = 11744051 / 2^24\<close>. The product with a bucket count that is zero or a power of
  two (all that \<open>upper_power_of_two\<close> yields) is exact in binary32, and the conversion to
  \<open>size_t\<close> truncates, so \<open>size_t(bucket_count_ * load)\<close> is the floor below.
\<close>

datatype binary32 = Dyadic (mant: nat) (nexp: nat)

definition min_load_default :: binary32 where
  "min_load_default = Dyadic 10066330 25"

definition max_load_default :: binary32 where
  "max_load_default = Dyadic 11744051 24"

definition load_times :: "binary32 \<Rightarrow> size_t \<Rightarrow> size_t" where
  "load_times l n = of_nat ((mant l * unat n) div 2 ^ nexp l)"

text \<open>
  The data members of \<open>kernel\<close>. A name cannot end in an underscore here, so the
  member \<open>size_\<close> is the field \<open>size_m\<close>, and so on. The allocator is left out.
\<close>

record ('v, 'k, 'm) kernel =
  hash_m :: "'k \<Rightarrow> size_t"
  equal_m :: "'k \<Rightarrow> 'k \<Rightarrow> bool"
  extract_m :: "'v \<Rightarrow> 'k"
  mapped_extract_m :: "'v \<Rightarrow> 'm"
  buckets_m :: "'v bucket_type list"
  min_load_m :: binary32
  max_load_m :: binary32
  bucket_count_m :: size_t
  size_m :: size_t
  min_size_m :: size_t
  max_size_m :: size_t

subsection \<open>Helpers\<close>

definition upper_power_of_two :: "size_t \<Rightarrow> size_t" where
  "upper_power_of_two x0 =
    (let x = x0 - 1;
         x = x OR drop_bit 1 x;
         x = x OR drop_bit 2 x;
         x = x OR drop_bit 4 x;
         x = x OR drop_bit 8 x;
         x = x OR drop_bit 16 x;
         x = x OR drop_bit 32 x
     in x + 1)"

definition index_from_key :: "('v, 'k, 'm) kernel \<Rightarrow> 'k \<Rightarrow> size_t" where
  "index_from_key k key = hash_m k key AND (bucket_count_m k - 1)"

definition index_from_value :: "('v, 'k, 'm) kernel \<Rightarrow> 'v \<Rightarrow> size_t" where
  "index_from_value k v = index_from_key k (extract_m k v)"

definition index_add :: "('v, 'k, 'm) kernel \<Rightarrow> size_t \<Rightarrow> size_t \<Rightarrow> size_t" where
  "index_add k index x = (index + x) AND (bucket_count_m k - 1)"

subsection \<open>Construction\<close>

definition kernel_new ::
  "size_t \<Rightarrow> ('k \<Rightarrow> size_t) \<Rightarrow> ('k \<Rightarrow> 'k \<Rightarrow> bool) \<Rightarrow> ('v \<Rightarrow> 'k) \<Rightarrow> ('v \<Rightarrow> 'm)
    \<Rightarrow> ('v, 'k, 'm) kernel" where
  "kernel_new bucket_count hash equal extract mapped_extract =
    (let n = upper_power_of_two bucket_count in
     \<lparr> hash_m = hash, equal_m = equal, extract_m = extract, mapped_extract_m = mapped_extract,
       buckets_m = replicate (unat n) None,
       min_load_m = min_load_default, max_load_m = max_load_default,
       bucket_count_m = n, size_m = 0,
       min_size_m = load_times min_load_default n,
       max_size_m = load_times max_load_default n \<rparr>)"

subsection \<open>Lookup\<close>

text \<open>
  The private \<open>find(key, virtual_index)\<close>. The loop may run forever (a full table without
  the key), so it is a partial function: \<open>None\<close> is "does not return".
\<close>

partial_function (option) find_impl ::
  "('v, 'k, 'm) kernel \<Rightarrow> 'k \<Rightarrow> size_t \<Rightarrow> (error + size_t) option" where
  "find_impl k key virtual_index =
    (if length (buckets_m k) \<le> unat virtual_index
     then Some (Inl (Out_Of_Range (unat virtual_index)))
     else (case buckets_m k ! unat virtual_index of
             None \<Rightarrow> Some (Inr (bucket_count_m k))
           | Some v \<Rightarrow>
               if equal_m k key (extract_m k v) then Some (Inr virtual_index)
               else find_impl k key (index_add k virtual_index 1)))"

text \<open>The public \<open>find(key)\<close>; an iterator is the slot index it holds.\<close>

definition find_key :: "('v, 'k, 'm) kernel \<Rightarrow> 'k \<Rightarrow> (error + size_t) option" where
  "find_key k key = find_impl k key (index_from_key k key)"

text \<open>
  \<open>operator[]\<close> reads the bucket at the index \<open>find\<close> returns, with no check against the
  end position, and hands out the mapped part of the entry there. The kernel is returned
  next to the result, as the call leaves it.
\<close>

definition subscript ::
  "('v, 'k, 'm) kernel \<Rightarrow> 'k \<Rightarrow> (error + ('v, 'k, 'm) kernel \<times> 'm) option" where
  "subscript k key =
    (case find_impl k key (index_from_key k key) of
       None \<Rightarrow> None
     | Some (Inl e) \<Rightarrow> Some (Inl e)
     | Some (Inr i) \<Rightarrow>
         if length (buckets_m k) \<le> unat i then Some (Inl (Out_Of_Range (unat i)))
         else (case buckets_m k ! unat i of
                 None \<Rightarrow> Some (Inl (No_Object (unat i)))
               | Some v \<Rightarrow> Some (Inr (k, mapped_extract_m k v))))"

subsection \<open>Insertion and rehashing\<close>

text \<open>The probe loop of the private \<open>insert\<close>: the nearest free bucket, wrapping.\<close>

partial_function (option) free_bucket ::
  "('v, 'k, 'm) kernel \<Rightarrow> size_t \<Rightarrow> (error + size_t) option" where
  "free_bucket k free_index =
    (if length (buckets_m k) \<le> unat free_index
     then Some (Inl (Out_Of_Range (unat free_index)))
     else (case buckets_m k ! unat free_index of
             None \<Rightarrow> Some (Inr free_index)
           | Some v \<Rightarrow> free_bucket k (index_add k free_index 1)))"

text \<open>The part of the private \<open>insert\<close> after the load check.\<close>

definition place ::
  "('v, 'k, 'm) kernel \<Rightarrow> 'v \<Rightarrow> size_t \<Rightarrow> (error + ('v, 'k, 'm) kernel \<times> size_t) option" where
  "place k v virtual_index =
    (case free_bucket k virtual_index of
       None \<Rightarrow> None
     | Some (Inl e) \<Rightarrow> Some (Inl e)
     | Some (Inr free_index) \<Rightarrow>
         Some (Inr (k\<lparr> buckets_m := (buckets_m k)[unat free_index := Some v],
                       size_m := size_m k + 1 \<rparr>, free_index)))"

text \<open>
  The private \<open>insert(value, virtual_index)\<close> and \<open>rehash(count)\<close> call each other, with
  no bound on the depth (a table of capacity 0 doubles for ever). The first argument is
  fuel for that call depth; \<open>None\<close> is "fuel exhausted". \<open>rehash_sweep\<close> is the \<open>for\<close> loop
  of \<open>rehash\<close> over the remaining old buckets.
\<close>

function
  insert_impl ::
    "nat \<Rightarrow> ('v, 'k, 'm) kernel \<Rightarrow> 'v \<Rightarrow> size_t
      \<Rightarrow> (error + ('v, 'k, 'm) kernel \<times> size_t) option" and
  rehash ::
    "nat \<Rightarrow> ('v, 'k, 'm) kernel \<Rightarrow> size_t \<Rightarrow> (error + ('v, 'k, 'm) kernel) option" and
  rehash_sweep ::
    "nat \<Rightarrow> ('v, 'k, 'm) kernel \<Rightarrow> 'v bucket_type list \<Rightarrow> size_t
      \<Rightarrow> (error + ('v, 'k, 'm) kernel) option"
where
  "insert_impl 0 k v virtual_index =
    (if size_m k = max_size_m k then None else place k v virtual_index)"
| "insert_impl (Suc n) k v virtual_index =
    (if size_m k = max_size_m k
     then (case rehash n k (bucket_count_m k * 2) of
             None \<Rightarrow> None
           | Some (Inl e) \<Rightarrow> Some (Inl e)
           | Some (Inr k') \<Rightarrow> insert_impl n k' v (index_from_value k' v))
     else place k v virtual_index)"
| "rehash n k count =
    (let bc = upper_power_of_two count;
         old_buckets = buckets_m k;
         k' = k\<lparr> bucket_count_m := bc,
                 buckets_m := replicate (unat bc) None,
                 size_m := 0,
                 min_size_m := load_times (min_load_m k) bc,
                 max_size_m := load_times (max_load_m k) bc \<rparr>
     in rehash_sweep n k' old_buckets count)"
| "rehash_sweep n k [] count = Some (Inr k)"
| "rehash_sweep n k (None # old_buckets) count = rehash_sweep n k old_buckets count"
| "rehash_sweep n k (Some v # old_buckets) count =
    (case insert_impl n k v (index_from_value k v) of
       None \<Rightarrow> None
     | Some (Inl e) \<Rightarrow> Some (Inl e)
     | Some (Inr (k', it)) \<Rightarrow>
         if bucket_count_m k' \<noteq> count then Some (Inr k')
         else rehash_sweep n k' old_buckets count)"
  by pat_completeness auto
termination
  by (relation "measures
        [\<lambda>x. case x of Inl (n, _) \<Rightarrow> n | Inr (Inl (n, _)) \<Rightarrow> n | Inr (Inr (n, _)) \<Rightarrow> n,
         \<lambda>x. case x of Inl _ \<Rightarrow> 0 | Inr (Inl _) \<Rightarrow> 2 | Inr (Inr _) \<Rightarrow> 1,
         \<lambda>x. case x of Inl _ \<Rightarrow> 0 | Inr (Inl _) \<Rightarrow> 0 | Inr (Inr (_, _, bs, _)) \<Rightarrow> length bs]")
     auto

text \<open>The public \<open>insert(value)\<close>: position and the "inserted" flag.\<close>

definition insert_value ::
  "nat \<Rightarrow> ('v, 'k, 'm) kernel \<Rightarrow> 'v
    \<Rightarrow> (error + ('v, 'k, 'm) kernel \<times> size_t \<times> bool) option" where
  "insert_value n k v =
    (let index = index_from_value k v in
     case find_impl k (extract_m k v) index of
       None \<Rightarrow> None
     | Some (Inl e) \<Rightarrow> Some (Inl e)
     | Some (Inr res) \<Rightarrow>
         if unat res = length (buckets_m k)
         then (case insert_impl n k v index of
                 None \<Rightarrow> None
               | Some (Inl e) \<Rightarrow> Some (Inl e)
               | Some (Inr (k', it)) \<Rightarrow> Some (Inr (k', it, True)))
         else Some (Inr (k, res, False)))"

subsection \<open>Erasure\<close>

text \<open>
  The first loop of \<open>erase\<close>: it returns the kernel, \<open>erased_index\<close> (\<open>None\<close> while
  uninitialised), \<open>erased_count\<close> and \<open>index\<close> as they are when the loop is left.
\<close>

partial_function (option) erase_scan ::
  "('v, 'k, 'm) kernel \<Rightarrow> 'k \<Rightarrow> size_t
    \<Rightarrow> (error + ('v, 'k, 'm) kernel \<times> size_t option \<times> size_t \<times> size_t) option" where
  "erase_scan k key index =
    (if length (buckets_m k) \<le> unat index then Some (Inl (Out_Of_Range (unat index)))
     else (case buckets_m k ! unat index of
             None \<Rightarrow> Some (Inr (k, None, 0, index))
           | Some v \<Rightarrow>
               if equal_m k key (extract_m k v)
               then Some (Inr (k\<lparr> buckets_m := (buckets_m k)[unat index := None],
                                   size_m := size_m k - 1 \<rparr>,
                               Some index, 1, index_add k index 1))
               else erase_scan k key (index_add k index 1)))"

text \<open>The second loop of \<open>erase\<close>, the backward shift.\<close>

partial_function (option) erase_repair ::
  "('v, 'k, 'm) kernel \<Rightarrow> size_t option \<Rightarrow> size_t \<Rightarrow> (error + ('v, 'k, 'm) kernel) option" where
  "erase_repair k erased_index index =
    (if length (buckets_m k) \<le> unat index then Some (Inl (Out_Of_Range (unat index)))
     else (case buckets_m k ! unat index of
             None \<Rightarrow> Some (Inr k)
           | Some v \<Rightarrow>
               (case erased_index of
                  None \<Rightarrow> Some (Inl Uninitialised)
                | Some e \<Rightarrow>
                    let hash = index_from_key k (extract_m k v) in
                    if (e < index \<and> (hash \<le> e \<or> hash > index)) \<or>
                       (e > index \<and> (hash \<le> e \<and> hash > index))
                    then (if length (buckets_m k) \<le> unat e
                          then Some (Inl (Out_Of_Range (unat e)))
                          else erase_repair
                                 (k\<lparr> buckets_m := (buckets_m k)[unat e := Some v,
                                                               unat index := None] \<rparr>)
                                 (Some index) (index_add k index 1))
                    else erase_repair k (Some e) (index_add k index 1))))"

definition erase ::
  "nat \<Rightarrow> ('v, 'k, 'm) kernel \<Rightarrow> 'k \<Rightarrow> (error + ('v, 'k, 'm) kernel \<times> size_t) option" where
  "erase n k key =
    (case erase_scan k key (index_from_key k key) of
       None \<Rightarrow> None
     | Some (Inl e) \<Rightarrow> Some (Inl e)
     | Some (Inr (k1, erased_index, erased_count, index)) \<Rightarrow>
         (case erase_repair k1 erased_index index of
            None \<Rightarrow> None
          | Some (Inl e) \<Rightarrow> Some (Inl e)
          | Some (Inr k2) \<Rightarrow>
              if size_m k2 < min_size_m k2 \<and> size_m k2 > 16
              then (case rehash n k2 (bucket_count_m k2 div 2) of
                      None \<Rightarrow> None
                    | Some (Inl e) \<Rightarrow> Some (Inl e)
                    | Some (Inr k3) \<Rightarrow> Some (Inr (k3, erased_count)))
              else Some (Inr (k2, erased_count))))"

subsection \<open>Clearing\<close>

text \<open>
  The loop of \<open>clear\<close> calls the destructor on the storage of every bucket below
  \<open>bucket_count_m\<close>, whatever its flag; then the vector is emptied and \<open>size_m\<close> reset.
\<close>

fun clear_loop :: "'v bucket_type list \<Rightarrow> nat \<Rightarrow> nat \<Rightarrow> error + unit" where
  "clear_loop bs index 0 = Inr ()"
| "clear_loop bs index (Suc n) =
    (if length bs \<le> index then Inl (Out_Of_Range index)
     else (case bs ! index of
             None \<Rightarrow> Inl (No_Object index)
           | Some v \<Rightarrow> clear_loop bs (Suc index) n))"

definition clear :: "('v, 'k, 'm) kernel \<Rightarrow> error + ('v, 'k, 'm) kernel" where
  "clear k =
    (case clear_loop (buckets_m k) 0 (unat (bucket_count_m k)) of
       Inl e \<Rightarrow> Inl e
     | Inr u \<Rightarrow> Inr (k\<lparr> buckets_m := [], size_m := 0 \<rparr>))"


subsection \<open>Example tables\<close>

text \<open>
  The set flavour on \<open>size_t\<close> keys: entries are their own keys, \<open>std::equal_to\<close> is
  equality and the hash is the identity (as \<open>std::hash\<close> of \<open>size_t\<close> commonly is).
\<close>

definition set_kernel :: "size_t \<Rightarrow> (size_t, size_t, size_t) kernel" where
  "set_kernel n = kernel_new n (\<lambda>x. x) (=) (\<lambda>x. x) (\<lambda>x. x)"

text \<open>A table of capacity 4 with the given buckets and size.\<close>

definition set4 :: "size_t bucket_type list \<Rightarrow> size_t \<Rightarrow> (size_t, size_t, size_t) kernel" where
  "set4 bs n = (set_kernel 4)\<lparr> buckets_m := bs, size_m := n \<rparr>"

section \<open>Invariants\<close>

text \<open>
  Slot indices are natural numbers below the capacity \<open>N\<close>. \<open>cdist N a b\<close> is the number
  of steps the circular scan takes from slot \<open>a\<close> to slot \<open>b\<close>, and \<open>cnext N i\<close> the slot
  after \<open>i\<close>: what \<open>index_add(i, 1)\<close> computes when the capacity is a power of two.
\<close>

definition cdist :: "nat \<Rightarrow> nat \<Rightarrow> nat \<Rightarrow> nat" where
  "cdist N a b = (if a \<le> b then b - a else N - a + b)"

definition cnext :: "nat \<Rightarrow> nat \<Rightarrow> nat" where
  "cnext N i = (if Suc i = N then 0 else Suc i)"

text \<open>
  The capacity as a number, the number of occupied buckets of a bucket vector, and the
  ideal index of an entry as a number.
\<close>

definition capacity :: "('v, 'k, 'm) kernel \<Rightarrow> nat" where
  "capacity k = unat (bucket_count_m k)"

definition occupied_count :: "'v bucket_type list \<Rightarrow> nat" where
  "occupied_count bs = length (filter has_value bs)"

definition ideal :: "('v, 'k, 'm) kernel \<Rightarrow> 'v \<Rightarrow> nat" where
  "ideal k v = unat (index_from_value k v)"

text \<open>
  A well-formed table: the capacity is a power of two and is the length of the bucket
  vector, \<open>size_\<close> counts the occupied buckets and is at most \<open>max_size_\<close>, and the load
  factors and the two size bounds are those the constructor and \<open>rehash\<close> compute (the
  setters of the load factors are not part of the model).
\<close>

definition table_ok :: "('v, 'k, 'm) kernel \<Rightarrow> bool" where
  "table_ok k \<longleftrightarrow>
     (\<exists>p<64. bucket_count_m k = 2 ^ p) \<and>
     length (buckets_m k) = unat (bucket_count_m k) \<and>
     unat (size_m k) = occupied_count (buckets_m k) \<and>
     size_m k \<le> max_size_m k \<and>
     min_load_m k = min_load_default \<and>
     max_load_m k = max_load_default \<and>
     min_size_m k = load_times (min_load_m k) (bucket_count_m k) \<and>
     max_size_m k = load_times (max_load_m k) (bucket_count_m k)"

text \<open>
  \<open>probe_run bs a e P\<close>: every slot on the circular scan from \<open>a\<close> up to, but not
  including, \<open>e\<close> is occupied by an entry that satisfies \<open>P\<close>.
\<close>

definition probe_run :: "'v bucket_type list \<Rightarrow> nat \<Rightarrow> nat \<Rightarrow> ('v \<Rightarrow> bool) \<Rightarrow> bool" where
  "probe_run bs a e P \<longleftrightarrow>
     (\<forall>s<length bs. cdist (length bs) a s < cdist (length bs) a e \<longrightarrow>
        (case bs ! s of None \<Rightarrow> False | Some w \<Rightarrow> P w))"

definition any_entry :: "'v \<Rightarrow> bool" where
  "any_entry w = True"

text \<open>
  The probe-run invariant: for every live entry, the circular scan from its ideal index to
  its slot passes only through occupied slots.
\<close>

definition probe_inv :: "('v, 'k, 'm) kernel \<Rightarrow> bool" where
  "probe_inv k \<longleftrightarrow>
     (\<forall>j<length (buckets_m k).
        case buckets_m k ! j of None \<Rightarrow> True
        | Some v \<Rightarrow> probe_run (buckets_m k) (ideal k v) j any_entry)"

text \<open>
  What the loop of \<open>find\<close> has established when it returns \<open>r\<close> after starting at slot
  \<open>a\<close>: either \<open>r\<close> is the end position and the scan met an empty slot after entries that
  do not match the key, or \<open>r\<close> is the first slot of the scan whose entry matches.
\<close>

definition no_match :: "('v, 'k, 'm) kernel \<Rightarrow> 'k \<Rightarrow> 'v \<Rightarrow> bool" where
  "no_match k key w \<longleftrightarrow> \<not> equal_m k key (extract_m k w)"

definition find_post :: "('v, 'k, 'm) kernel \<Rightarrow> 'k \<Rightarrow> nat \<Rightarrow> size_t \<Rightarrow> bool" where
  "find_post k key a r \<longleftrightarrow>
     (r = bucket_count_m k \<and>
        (\<exists>e<capacity k. buckets_m k ! e = None \<and> probe_run (buckets_m k) a e (no_match k key)))
     \<or> (unat r < capacity k \<and>
        (\<exists>w. buckets_m k ! unat r = Some w \<and> equal_m k key (extract_m k w)) \<and>
        probe_run (buckets_m k) a (unat r) (no_match k key))"

text \<open>The table after placing v in the free bucket f.\<close>

definition placed :: "('v, 'k, 'm) kernel \<Rightarrow> 'v \<Rightarrow> size_t \<Rightarrow> ('v, 'k, 'm) kernel" where
  "placed k v f = k\<lparr> buckets_m := (buckets_m k)[unat f := Some v], size_m := size_m k + 1 \<rparr>"

text \<open>
  The set of live entries of a bucket vector, and equivalence of two entries: their keys
  are equal under \<open>equal_\<close>.
\<close>

definition entries :: "'v bucket_type list \<Rightarrow> 'v set" where
  "entries bs = {v. Some v \<in> set bs}"

definition equiv_entries :: "('v, 'k, 'm) kernel \<Rightarrow> 'v \<Rightarrow> 'v \<Rightarrow> bool" where
  "equiv_entries k v w \<longleftrightarrow> equal_m k (extract_m k v) (extract_m k w)"

text \<open>
  No two different slots hold equivalent entries; \<open>unique_keys\<close> says so of the table's
  bucket vector.
\<close>

definition unique_slots :: "('v, 'k, 'm) kernel \<Rightarrow> 'v bucket_type list \<Rightarrow> bool" where
  "unique_slots k bs \<longleftrightarrow>
     (\<forall>i<length bs. \<forall>j<length bs.
        case bs ! i of None \<Rightarrow> True
        | Some v \<Rightarrow> (case bs ! j of None \<Rightarrow> True
                     | Some w \<Rightarrow> equiv_entries k v w \<longrightarrow> i = j))"

definition unique_keys :: "('v, 'k, 'm) kernel \<Rightarrow> bool" where
  "unique_keys k \<longleftrightarrow> unique_slots k (buckets_m k)"

text \<open>
  What the kernel expects of its functors: \<open>equal_\<close> is an equivalence relation on keys,
  and equivalent keys have the same hash.
\<close>

definition capabilities_ok :: "('v, 'k, 'm) kernel \<Rightarrow> bool" where
  "capabilities_ok k \<longleftrightarrow>
     (\<forall>a. equal_m k a a) \<and>
     (\<forall>a b. equal_m k a b \<longrightarrow> equal_m k b a) \<and>
     (\<forall>a b c. equal_m k a b \<longrightarrow> equal_m k b c \<longrightarrow> equal_m k a c) \<and>
     (\<forall>a b. equal_m k a b \<longrightarrow> hash_m k a = hash_m k b)"

text \<open>Two kernels with the same functors, load factors, capacity and size bounds.\<close>

definition same_params :: "('v, 'k, 'm) kernel \<Rightarrow> ('v, 'k, 'm) kernel \<Rightarrow> bool" where
  "same_params k' k \<longleftrightarrow>
     hash_m k' = hash_m k \<and> equal_m k' = equal_m k \<and> extract_m k' = extract_m k \<and>
     mapped_extract_m k' = mapped_extract_m k \<and>
     min_load_m k' = min_load_m k \<and> max_load_m k' = max_load_m k \<and>
     bucket_count_m k' = bucket_count_m k \<and>
     min_size_m k' = min_size_m k \<and> max_size_m k' = max_size_m k"

text \<open>
  No entry of \<open>A\<close> is equivalent to an entry of \<open>B\<close>.
\<close>

definition unrelated :: "('v, 'k, 'm) kernel \<Rightarrow> 'v set \<Rightarrow> 'v set \<Rightarrow> bool" where
  "unrelated k A B \<longleftrightarrow> (\<forall>w\<in>A. \<forall>v\<in>B. \<not> equiv_entries k w v \<and> \<not> equiv_entries k v w)"

text \<open>The table with which \<open>rehash\<close> starts its sweep.\<close>

definition fresh :: "('v, 'k, 'm) kernel \<Rightarrow> size_t \<Rightarrow> ('v, 'k, 'm) kernel" where
  "fresh k bc = k\<lparr> bucket_count_m := bc,
                  buckets_m := replicate (unat bc) None,
                  size_m := 0,
                  min_size_m := load_times (min_load_m k) bc,
                  max_size_m := load_times (max_load_m k) bc \<rparr>"

text \<open>Two tables with the same functors and load factors.\<close>

definition same_functors :: "('v, 'k, 'm) kernel \<Rightarrow> ('v, 'k, 'm) kernel \<Rightarrow> bool" where
  "same_functors k' k \<longleftrightarrow>
     hash_m k' = hash_m k \<and> equal_m k' = equal_m k \<and> extract_m k' = extract_m k \<and>
     mapped_extract_m k' = mapped_extract_m k \<and>
     min_load_m k' = min_load_m k \<and> max_load_m k' = max_load_m k"


text \<open>The map flavour: entries are pairs of a \<open>size_t\<close> key and a \<open>size_t\<close> value.\<close>

definition map4 ::
  "(size_t \<times> size_t) bucket_type list \<Rightarrow> size_t \<Rightarrow> (size_t \<times> size_t, size_t, size_t) kernel" where
  "map4 bs n = (kernel_new 4 (\<lambda>x. x) (=) fst snd)\<lparr> buckets_m := bs, size_m := n \<rparr>"

text \<open>\<open>h\<close> lies in the circular arc \<open>(g, i]\<close>.\<close>

definition in_arc :: "nat \<Rightarrow> nat \<Rightarrow> nat \<Rightarrow> nat \<Rightarrow> bool" where
  "in_arc N g i h \<longleftrightarrow> 0 < cdist N g h \<and> cdist N g h \<le> cdist N g i"

text \<open>The table after the first loop of \<open>erase\<close> has destroyed the entry at \<open>g\<close>.\<close>

definition erased :: "('v, 'k, 'm) kernel \<Rightarrow> size_t \<Rightarrow> ('v, 'k, 'm) kernel" where
  "erased k g = k\<lparr> buckets_m := (buckets_m k)[unat g := None], size_m := size_m k - 1 \<rparr>"

text \<open>The table after the second loop has moved the entry \<open>v\<close> from \<open>i\<close> into the gap \<open>g\<close>.\<close>

definition moved :: "('v, 'k, 'm) kernel \<Rightarrow> size_t \<Rightarrow> size_t \<Rightarrow> 'v \<Rightarrow> ('v, 'k, 'm) kernel" where
  "moved k g i v = k\<lparr> buckets_m := (buckets_m k)[unat g := Some v, unat i := None] \<rparr>"

text \<open>
  What the first loop of \<open>erase\<close> has established when it is left in the state \<open>res\<close>
  after starting at slot \<open>a\<close>: either no match before the empty slot \<open>index\<close>, the table
  untouched and \<open>erased_index\<close> uninitialised; or the first matching entry, at \<open>g\<close>, has
  been destroyed and \<open>index\<close> is the slot after it.
\<close>

definition scan_post ::
  "('v, 'k, 'm) kernel \<Rightarrow> 'k \<Rightarrow> nat
    \<Rightarrow> ('v, 'k, 'm) kernel \<times> size_t option \<times> size_t \<times> size_t \<Rightarrow> bool" where
  "scan_post k key a res \<longleftrightarrow>
     (\<exists>index. res = (k, None, 0, index) \<and> unat index < capacity k \<and>
        buckets_m k ! unat index = None \<and>
        probe_run (buckets_m k) a (unat index) (no_match k key))
     \<or> (\<exists>g w. res = (erased k g, Some g, 1, index_add k g 1) \<and> unat g < capacity k \<and>
        buckets_m k ! unat g = Some w \<and> equal_m k key (extract_m k w) \<and>
        probe_run (buckets_m k) a (unat g) (no_match k key))"

text \<open>What \<open>find\<close> returns where the first loop of \<open>erase\<close> ends in the given state.\<close>

definition scan_find ::
  "('v, 'k, 'm) kernel \<Rightarrow> ('v, 'k, 'm) kernel \<times> size_t option \<times> size_t \<times> size_t \<Rightarrow> size_t" where
  "scan_find k res = (case fst (snd res) of None \<Rightarrow> bucket_count_m k | Some g \<Rightarrow> g)"

text \<open>
  The state of the repair pass with the gap at \<open>g\<close> and the index at \<open>i\<close>: every live
  entry's scan from its ideal index passes only through occupied slots, except possibly
  the gap; and an entry whose scan passes the gap lies at or beyond the index.
\<close>

definition gap_run :: "('v, 'k, 'm) kernel \<Rightarrow> nat \<Rightarrow> nat \<Rightarrow> bool" where
  "gap_run k g i \<longleftrightarrow>
     (\<forall>j<length (buckets_m k).
        case buckets_m k ! j of None \<Rightarrow> True
        | Some v \<Rightarrow>
            (\<forall>s<length (buckets_m k).
               cdist (length (buckets_m k)) (ideal k v) s < cdist (length (buckets_m k)) (ideal k v) j
                 \<longrightarrow> s \<noteq> g \<longrightarrow> buckets_m k ! s \<noteq> None) \<and>
            (cdist (length (buckets_m k)) (ideal k v) g < cdist (length (buckets_m k)) (ideal k v) j
               \<longrightarrow> cdist (length (buckets_m k)) g i \<le> cdist (length (buckets_m k)) g j))"

definition repair_inv :: "('v, 'k, 'm) kernel \<Rightarrow> nat \<Rightarrow> nat \<Rightarrow> nat \<Rightarrow> bool" where
  "repair_inv k g i e \<longleftrightarrow>
     g < length (buckets_m k) \<and> i < length (buckets_m k) \<and> e < length (buckets_m k) \<and>
     buckets_m k ! g = None \<and> buckets_m k ! e = None \<and>
     cdist (length (buckets_m k)) i e < cdist (length (buckets_m k)) i g \<and>
     gap_run k g i"

text \<open>The test at the end of \<open>erase\<close>.\<close>

definition shrinks :: "('v, 'k, 'm) kernel \<Rightarrow> bool" where
  "shrinks k \<longleftrightarrow> size_m k < min_size_m k \<and> size_m k > 16"

text \<open>A sequence of calls to the public \<open>insert\<close>, one for each entry of the list.\<close>

fun insert_all ::
  "nat \<Rightarrow> ('v, 'k, 'm) kernel \<Rightarrow> 'v list \<Rightarrow> (error + ('v, 'k, 'm) kernel) option" where
  "insert_all n k [] = Some (Inr k)"
| "insert_all n k (v # vs) =
    (case insert_value n k v of
       None \<Rightarrow> None
     | Some (Inl e) \<Rightarrow> Some (Inl e)
     | Some (Inr (k', it, b)) \<Rightarrow> insert_all n k' vs)"

text \<open>
  The table of capacity 64 holding the keys 1 to 17, each in its ideal slot, and the table
  of capacity 32 with the same keys.
\<close>

definition set64_17 :: "(size_t, size_t, size_t) kernel" where
  "set64_17 = (set_kernel 64)\<lparr>
     buckets_m := None # map Some [1, 2, 3, 4, 5, 6, 7, 8, 9, 10, 11, 12, 13, 14, 15, 16, 17]
                    @ replicate 46 None,
     size_m := 17 \<rparr>"

definition set32_17 :: "(size_t, size_t, size_t) kernel" where
  "set32_17 = (set_kernel 32)\<lparr>
     buckets_m := None # map Some [1, 2, 3, 4, 5, 6, 7, 8, 9, 10, 11, 12, 13, 14, 15, 16, 17]
                    @ replicate 14 None,
     size_m := 17 \<rparr>"

section \<open>Evaluation of the example tables\<close>

lemma replicate_numeral: "replicate (numeral n) x = x # replicate (pred_numeral n) x"
  by (simp add: numeral_eq_Suc)

lemma clear_loop_numeral:
  "clear_loop bs index (numeral n) =
    (if length bs \<le> index then Inl (Out_Of_Range index)
     else (case bs ! index of
             None \<Rightarrow> Inl (No_Object index)
           | Some v \<Rightarrow> clear_loop bs (Suc index) (pred_numeral n)))"
  by (simp add: numeral_eq_Suc)

lemmas kernel_eval =
  upper_power_of_two_def Let_def load_times_def insert_value_def find_impl.simps
  index_from_key_def index_from_value_def index_add_def place_def free_bucket.simps
  find_key_def erase_def erase_scan.simps erase_repair.simps subscript_def clear_def
  replicate_numeral clear_loop_numeral

lemma set_kernel_4:
  "set_kernel 4 =
    \<lparr> hash_m = (\<lambda>x. x), equal_m = (=), extract_m = (\<lambda>x. x), mapped_extract_m = (\<lambda>x. x),
      buckets_m = [None, None, None, None],
      min_load_m = Dyadic 10066330 25, max_load_m = Dyadic 11744051 24,
      bucket_count_m = 4, size_m = 0, min_size_m = 1, max_size_m = 2 \<rparr>"
  by (simp add: set_kernel_def kernel_new_def upper_power_of_two_def load_times_def
      min_load_default_def max_load_default_def replicate_numeral)

lemma set_kernel_0:
  "set_kernel 0 =
    \<lparr> hash_m = (\<lambda>x. x), equal_m = (=), extract_m = (\<lambda>x. x), mapped_extract_m = (\<lambda>x. x),
      buckets_m = [],
      min_load_m = Dyadic 10066330 25, max_load_m = Dyadic 11744051 24,
      bucket_count_m = 0, size_m = 0, min_size_m = 0, max_size_m = 0 \<rparr>"
  by (simp add: set_kernel_def kernel_new_def upper_power_of_two_def load_times_def
      min_load_default_def max_load_default_def)

lemma set4_eq:
  "set4 bs n =
    \<lparr> hash_m = (\<lambda>x. x), equal_m = (=), extract_m = (\<lambda>x. x), mapped_extract_m = (\<lambda>x. x),
      buckets_m = bs,
      min_load_m = Dyadic 10066330 25, max_load_m = Dyadic 11744051 24,
      bucket_count_m = 4, size_m = n, min_size_m = 1, max_size_m = 2 \<rparr>"
  by (simp add: set4_def set_kernel_4)

lemma set4_insert_1:
  "insert_value 0 (set_kernel 4) 1 = Some (Inr (set4 [None, Some 1, None, None] 1, 1, True))"
  by (simp add: set_kernel_4 set4_eq kernel_eval)

lemma set4_insert_5:
  "insert_value 0 (set4 [None, Some 1, None, None] 1) 5 =
    Some (Inr (set4 [None, Some 1, Some 5, None] 2, 2, True))"
  by (simp add: set4_eq kernel_eval)

lemma set4_find_5: "find_key (set4 [None, Some 1, Some 5, None] 2) 5 = Some (Inr 2)"
  by (simp add: set4_eq kernel_eval)

lemma set4_rehash_3:
  "rehash 0 (set4 [None, Some 1, Some 5, None] 2) 3 =
     Some (Inr (set4 [None, Some 1, None, None] 1))"
  by (simp add: set4_eq kernel_eval)

lemma set4_find_5_lost: "find_key (set4 [None, Some 1, None, None] 1) 5 = Some (Inr 4)"
  by (simp add: set4_eq kernel_eval)

section \<open>Index arithmetic in a well-formed table\<close>

lemma pow2_mask: 
  fixes x :: size_t
  assumes "p < 64"
  shows "unat (x AND (2 ^ p - 1)) = unat x mod 2 ^ p"
proof -
  have "x AND (2 ^ p - 1) = take_bit p x"
    by (simp add: take_bit_eq_mask mask_eq_exp_minus_1)
  then show ?thesis
    by (simp add: unsigned_take_bit_eq take_bit_nat_def)
qed

lemma pow2_less_64: "p < 64 \<Longrightarrow> (2::nat) ^ p < 18446744073709551616"
proof -
  assume "p < 64"
  then have "(2::nat) ^ p < 2 ^ 64" by (rule power_strict_increasing) simp
  then show ?thesis by simp
qed

lemma unat_pow2: 
  assumes "p < 64" shows "unat ((2::size_t) ^ p) = 2 ^ p"
proof -
  have "(2::size_t) ^ p = of_nat (2 ^ p)" by simp
  then have "unat ((2::size_t) ^ p) = 2 ^ p mod 2 ^ 64"
    by (simp only: unat_of_nat) simp
  then show ?thesis using pow2_less_64[OF assms] by simp
qed

lemma unat_succ:
  fixes i :: size_t
  assumes "p < 64" "unat i < 2 ^ p"
  shows "unat (i + 1) = Suc (unat i)"
proof -
  have "unat i + unat (1::size_t) < 2 ^ LENGTH(64)"
    using assms(2) pow2_less_64[OF assms(1)] by simp
  then show ?thesis
    using unat_add_lem[of i 1] by simp
qed

lemma index_add_unat:
  fixes i :: size_t
  assumes "p < 64" "unat i < 2 ^ p"
  shows "unat ((i + 1) AND (2 ^ p - 1)) = cnext (2 ^ p) (unat i)"
proof -
  have "unat ((i + 1) AND (2 ^ p - 1)) = Suc (unat i) mod 2 ^ p"
    using assms by (simp add: pow2_mask unat_succ)
  also have "\<dots> = cnext (2 ^ p) (unat i)"
    using assms(2) by (auto simp: cnext_def mod_Suc)
  finally show ?thesis .
qed

lemma table_ok_pow2:
  assumes "table_ok k"
  obtains p where "p < 64" "bucket_count_m k = 2 ^ p" "capacity k = 2 ^ p"
  using assms unat_pow2 by (auto simp: table_ok_def capacity_def)

lemma table_ok_index_add:
  assumes "table_ok k" "unat i < capacity k"
  shows "unat (index_add k i 1) = cnext (capacity k) (unat i)"
proof -
  from assms(1) obtain p where p: "p < 64" "bucket_count_m k = 2 ^ p" "capacity k = 2 ^ p"
    by (rule table_ok_pow2)
  with assms(2) show ?thesis
    by (simp add: index_add_def index_add_unat)
qed

lemma table_ok_index_from_key:
  assumes "table_ok k"
  shows "unat (index_from_key k key) = unat (hash_m k key) mod capacity k"
proof -
  from assms(1) obtain p where p: "p < 64" "bucket_count_m k = 2 ^ p" "capacity k = 2 ^ p"
    by (rule table_ok_pow2)
  then show ?thesis
    by (simp add: index_from_key_def pow2_mask)
qed

lemma table_ok_capacity_pos: "table_ok k \<Longrightarrow> 0 < capacity k"
  by (erule table_ok_pow2) simp

lemma table_ok_length: "table_ok k \<Longrightarrow> length (buckets_m k) = capacity k"
  by (auto simp: table_ok_def capacity_def)

lemma table_ok_index_from_key_less: "table_ok k \<Longrightarrow> unat (index_from_key k key) < capacity k"
  by (simp add: table_ok_index_from_key table_ok_capacity_pos)

lemma ideal_less: "table_ok k \<Longrightarrow> ideal k v < capacity k"
  by (simp add: ideal_def index_from_value_def table_ok_index_from_key_less)

lemma cnext_less: "i < N \<Longrightarrow> cnext N i < N"
  by (auto simp: cnext_def)

lemma max_load_bound:
  assumes "p < 64"
  shows "unat (load_times max_load_default (2 ^ p)) = (11744051 * 2 ^ p) div 2 ^ 24"
    and "(11744051 * 2 ^ p) div 2 ^ 24 < (2::nat) ^ p"
proof -
  have pos: "(0::nat) < 2 ^ p" by simp
  show lt: "(11744051 * 2 ^ p) div 2 ^ 24 < (2::nat) ^ p"
    using pos by (simp add: less_mult_imp_div_less)
  with pow2_less_64[OF assms] have "(11744051 * 2 ^ p) div 2 ^ 24 < (2::nat) ^ 64" by simp
  then show "unat (load_times max_load_default (2 ^ p)) = (11744051 * 2 ^ p) div 2 ^ 24"
    using assms by (simp add: load_times_def max_load_default_def unat_of_nat unat_pow2)
qed

lemma table_ok_max_size:
  assumes "table_ok k"
  shows "unat (max_size_m k) = (11744051 * capacity k) div 2 ^ 24" 
    and "unat (max_size_m k) < capacity k"
proof -
  from assms(1) obtain p where p: "p < 64" "bucket_count_m k = 2 ^ p" "capacity k = 2 ^ p"
    by (rule table_ok_pow2)
  have m: "max_size_m k = load_times max_load_default (2 ^ p)"
    using assms p by (simp add: table_ok_def)
  show "unat (max_size_m k) = (11744051 * capacity k) div 2 ^ 24"
    using max_load_bound(1)[OF p(1)] m p(3) by simp
  then show "unat (max_size_m k) < capacity k"
    using max_load_bound(2)[OF p(1)] p(3) by simp
qed

lemma occupied_count_less_length:
  "occupied_count bs < length bs \<Longrightarrow> \<exists>e<length bs. bs ! e = None"
proof (rule ccontr)
  assume a: "occupied_count bs < length bs" and "\<not> (\<exists>e<length bs. bs ! e = None)"
  then have "\<forall>b\<in>set bs. b \<noteq> None" by (metis in_set_conv_nth)
  then have "filter has_value bs = bs" by (simp add: filter_id_conv)
  with a show False by (simp add: occupied_count_def)
qed

lemma table_ok_size: "table_ok k \<Longrightarrow> unat (size_m k) = occupied_count (buckets_m k)"
  unfolding table_ok_def by blast

lemma table_ok_size_le: "table_ok k \<Longrightarrow> unat (size_m k) \<le> unat (max_size_m k)"
  unfolding table_ok_def word_le_nat_alt by blast

lemma table_ok_empty_slot:
  assumes "table_ok k"
  shows "\<exists>e<capacity k. buckets_m k ! e = None"
proof -
  have "occupied_count (buckets_m k) < length (buckets_m k)"
    using table_ok_max_size(2)[OF assms] table_ok_size[OF assms] table_ok_size_le[OF assms]
      table_ok_length[OF assms] by linarith
  then show ?thesis
    using occupied_count_less_length table_ok_length[OF assms] by metis
qed

section \<open>The loop of find\<close>

lemma cdist_self: "cdist N a a = 0"
  by (simp add: cdist_def)

lemma probe_run_refl: "probe_run bs a a P"
  unfolding probe_run_def cdist_self by simp

lemma probe_run_step:
  assumes "a < length bs" "e < length bs" "a \<noteq> e" "bs ! a = Some w" "P w"
    and "probe_run bs (cnext (length bs) a) e P"
  shows "probe_run bs a e P"
  unfolding probe_run_def
proof (intro allI impI)
  fix s assume s: "s < length bs" "cdist (length bs) a s < cdist (length bs) a e"
  show "case bs ! s of None \<Rightarrow> False | Some w \<Rightarrow> P w"
  proof (cases "s = a")
    case True
    then show ?thesis using assms by simp
  next
    case False
    then have "cdist (length bs) (cnext (length bs) a) s < cdist (length bs) (cnext (length bs) a) e"
      using s assms(1,2,3) by (auto simp: cdist_def cnext_def split: if_splits)
    then show ?thesis using assms(6) s(1) by (simp add: probe_run_def)
  qed
qed

lemma cdist_cnext:
  "a < N \<Longrightarrow> e < N \<Longrightarrow> a \<noteq> e \<Longrightarrow> cdist N (cnext N a) e = cdist N a e - 1 \<and> 0 < cdist N a e"
  by (auto simp: cdist_def cnext_def split: if_splits)

lemma find_impl_scan:
  assumes ok: "table_ok k" and e: "e < capacity k" "buckets_m k ! e = None"
    and i: "unat i < capacity k" and m: "cdist (capacity k) (unat i) e = m"
  shows "\<exists>r. find_impl k key i = Some (Inr r) \<and> find_post k key (unat i) r"
  using i m
proof (induction m arbitrary: i)
  case 0
  then have "unat i = e" using e(1) by (auto simp: cdist_def split: if_splits)
  then show ?case
    using e ok 0(1) by (subst find_impl.simps) (auto simp: table_ok_length find_post_def probe_run_refl)
next
  case (Suc m)
  let ?N = "capacity k"
  have len: "length (buckets_m k) = ?N" using ok by (rule table_ok_length)
  show ?case
  proof (cases "buckets_m k ! unat i")
    case None
    then show ?thesis
      using Suc.prems(1) len
      by (subst find_impl.simps) (auto simp: find_post_def probe_run_refl)
  next
    case (Some w)
    show ?thesis
    proof (cases "equal_m k key (extract_m k w)")
      case True
      then show ?thesis
        using Some Suc.prems(1) len
        by (subst find_impl.simps) (auto simp: find_post_def probe_run_refl)
    next
      case False
      have ne: "unat i \<noteq> e" using Some e(2) by auto
      let ?i' = "index_add k i 1"
      have i': "unat ?i' = cnext ?N (unat i)"
        using ok Suc.prems(1) by (rule table_ok_index_add)
      then have i'less: "unat ?i' < ?N" using Suc.prems(1) by (simp add: cnext_less)
      have "cdist ?N (unat ?i') e = m"
        using cdist_cnext[OF Suc.prems(1) e(1) ne] Suc.prems(2) i' by simp
      from Suc.IH[OF i'less this] obtain r where
        r: "find_impl k key ?i' = Some (Inr r)" "find_post k key (unat ?i') r" by blast
      have step: "\<And>t. t < ?N \<Longrightarrow> t \<noteq> unat i \<Longrightarrow> probe_run (buckets_m k) (unat ?i') t (no_match k key)
          \<Longrightarrow> probe_run (buckets_m k) (unat i) t (no_match k key)"
        using probe_run_step[of "unat i" "buckets_m k" _ w "no_match k key"] Some False
          Suc.prems(1) len i' by (simp add: no_match_def)
      have "find_post k key (unat i) r"
      proof -
        from r(2) consider
          (absent) e' where "r = bucket_count_m k" "e' < ?N" "buckets_m k ! e' = None"
            "probe_run (buckets_m k) (unat ?i') e' (no_match k key)"
          | (found) w' where "unat r < ?N" "buckets_m k ! unat r = Some w'"
            "equal_m k key (extract_m k w')"
            "probe_run (buckets_m k) (unat ?i') (unat r) (no_match k key)"
          unfolding find_post_def by blast
        then show ?thesis
        proof cases
          case absent
          then have "e' \<noteq> unat i" using Some by auto
          with absent step[of e'] show ?thesis unfolding find_post_def by blast
        next
          case found
          then have "unat r \<noteq> unat i" using Some False by auto
          with found step[of "unat r"] show ?thesis unfolding find_post_def by blast
        qed
      qed
      moreover have "find_impl k key i = Some (Inr r)"
        using Some False Suc.prems(1) len r(1) by (subst find_impl.simps) simp
      ultimately show ?thesis by blast
    qed
  qed
qed

section \<open>The free bucket and the placement\<close>

lemma find_impl_total:
  assumes "table_ok k" "unat i < capacity k"
  shows "\<exists>r. find_impl k key i = Some (Inr r) \<and> find_post k key (unat i) r"
proof -
  from table_ok_empty_slot[OF assms(1)] obtain e where "e < capacity k" "buckets_m k ! e = None"
    by blast
  then show ?thesis using find_impl_scan[OF assms(1) _ _ assms(2)] by blast
qed

lemma free_bucket_scan:
  assumes ok: "table_ok k" and e: "e < capacity k" "buckets_m k ! e = None"
    and i: "unat i < capacity k" and m: "cdist (capacity k) (unat i) e = m"
  shows "\<exists>f. free_bucket k i = Some (Inr f) \<and> unat f < capacity k \<and>
           buckets_m k ! unat f = None \<and> probe_run (buckets_m k) (unat i) (unat f) any_entry"
  using i m
proof (induction m arbitrary: i)
  case 0
  then have "unat i = e" using e(1) by (auto simp: cdist_def split: if_splits)
  then show ?case
    using e ok 0(1) by (subst free_bucket.simps) (auto simp: table_ok_length probe_run_refl)
next
  case (Suc m)
  let ?N = "capacity k"
  have len: "length (buckets_m k) = ?N" using ok by (rule table_ok_length)
  show ?case
  proof (cases "buckets_m k ! unat i")
    case None
    then show ?thesis
      using Suc.prems(1) len
      by (subst free_bucket.simps) (auto simp: probe_run_refl)
  next
    case (Some w)
    have ne: "unat i \<noteq> e" using Some e(2) by auto
    let ?i' = "index_add k i 1"
    have i': "unat ?i' = cnext ?N (unat i)"
      using ok Suc.prems(1) by (rule table_ok_index_add)
    then have i'less: "unat ?i' < ?N" using Suc.prems(1) by (simp add: cnext_less)
    have "cdist ?N (unat ?i') e = m"
      using cdist_cnext[OF Suc.prems(1) e(1) ne] Suc.prems(2) i' by simp
    from Suc.IH[OF i'less this] obtain f where
      f: "free_bucket k ?i' = Some (Inr f)" "unat f < ?N" "buckets_m k ! unat f = None"
         "probe_run (buckets_m k) (unat ?i') (unat f) any_entry" by blast
    have "unat f \<noteq> unat i" using f(3) Some by auto
    then have "probe_run (buckets_m k) (unat i) (unat f) any_entry"
      using probe_run_step[of "unat i" "buckets_m k" "unat f" w any_entry] Some
        Suc.prems(1) len i' f(2,4) by (simp add: any_entry_def)
    moreover have "free_bucket k i = Some (Inr f)"
      using Some Suc.prems(1) len f(1) by (subst free_bucket.simps) simp
    ultimately show ?thesis using f(2,3) by blast
  qed
qed

lemma free_bucket_total:
  assumes "table_ok k" "unat i < capacity k"
  shows "\<exists>f. free_bucket k i = Some (Inr f) \<and> unat f < capacity k \<and>
           buckets_m k ! unat f = None \<and> probe_run (buckets_m k) (unat i) (unat f) any_entry"
proof -
  from table_ok_empty_slot[OF assms(1)] obtain e where "e < capacity k" "buckets_m k ! e = None"
    by blast
  then show ?thesis using free_bucket_scan[OF assms(1) _ _ assms(2)] by blast
qed

lemma occupied_count_Cons:
  "occupied_count (b # bs) = (if b = None then occupied_count bs else Suc (occupied_count bs))"
  by (simp add: occupied_count_def)

lemma occupied_count_set_Some:
  "f < length bs \<Longrightarrow> bs ! f = None \<Longrightarrow> occupied_count (bs[f := Some v]) = Suc (occupied_count bs)"
proof (induction bs arbitrary: f)
  case Nil
  then show ?case by simp
next
  case (Cons b bs)
  then show ?case by (cases f) (auto simp: occupied_count_Cons)
qed

lemma occupied_count_set_None:
  "f < length bs \<Longrightarrow> bs ! f = Some v \<Longrightarrow> Suc (occupied_count (bs[f := None])) = occupied_count bs"
proof (induction bs arbitrary: f)
  case Nil
  then show ?case by simp
next
  case (Cons b bs)
  then show ?case by (cases f) (auto simp: occupied_count_Cons)
qed

lemma occupied_count_le_length: "occupied_count bs \<le> length bs"
  by (simp add: occupied_count_def)

lemma occupied_count_replicate: "occupied_count (replicate n None) = 0"
  by (simp add: occupied_count_def)

lemma place_total:
  assumes "table_ok k" "unat i < capacity k"
  shows "\<exists>f. place k v i = Some (Inr (placed k v f, f)) \<and> unat f < capacity k \<and>
           buckets_m k ! unat f = None \<and> probe_run (buckets_m k) (unat i) (unat f) any_entry"
proof -
  from free_bucket_total[OF assms] obtain f where
    f: "free_bucket k i = Some (Inr f)" "unat f < capacity k" "buckets_m k ! unat f = None"
       "probe_run (buckets_m k) (unat i) (unat f) any_entry" by blast
  then show ?thesis by (auto simp: place_def placed_def)
qed

lemma placed_table_ok:
  assumes ok: "table_ok k" and f: "unat f < capacity k" "buckets_m k ! unat f = None"
    and room: "size_m k \<noteq> max_size_m k"
  shows "table_ok (placed k v f)"
proof -
  from ok obtain p where p: "p < 64" "bucket_count_m k = 2 ^ p" "capacity k = 2 ^ p"
    by (rule table_ok_pow2)
  have lt: "unat (size_m k) < unat (max_size_m k)"
    using table_ok_size_le[OF ok] room by (simp add: word_unat_eq_iff order_neq_le_trans)
  have "unat (max_size_m k) < 2 ^ p" using table_ok_max_size(2)[OF ok] p(3) by simp
  with lt have "unat (size_m k) < 2 ^ p" by linarith
  then have suc: "unat (size_m k + 1) = Suc (unat (size_m k))"
    using p(1) by (rule unat_succ[rotated])
  have len: "length (buckets_m k) = capacity k" using ok by (rule table_ok_length)
  have "unat (size_m k + 1) = occupied_count ((buckets_m k)[unat f := Some v])"
    using suc occupied_count_set_Some[of "unat f" "buckets_m k" v] f len table_ok_size[OF ok]
    by simp
  moreover have "size_m k + 1 \<le> max_size_m k"
    using suc lt by (simp add: word_le_nat_alt)
  ultimately show ?thesis
    using ok unfolding table_ok_def placed_def by simp
qed

section \<open>Placement keeps the invariants\<close>

lemma same_params_refl: "same_params k k"
  by (simp add: same_params_def)

lemma same_params_trans: "same_params k'' k' \<Longrightarrow> same_params k' k \<Longrightarrow> same_params k'' k"
  by (simp add: same_params_def)

lemma same_params_placed: "same_params (placed k v f) k"
  by (simp add: same_params_def placed_def)

lemma same_params_ideal: "same_params k' k \<Longrightarrow> ideal k' v = ideal k v"
  by (simp add: same_params_def ideal_def index_from_value_def index_from_key_def)

lemma same_params_capacity: "same_params k' k \<Longrightarrow> capacity k' = capacity k"
  by (simp add: same_params_def capacity_def)

lemma same_params_equiv: "same_params k' k \<Longrightarrow> equiv_entries k' = equiv_entries k"
  by (auto simp: same_params_def equiv_entries_def fun_eq_iff)

lemma same_params_unique_slots:
  assumes "same_params k' k"
  shows "unique_slots k' bs = unique_slots k bs"
  unfolding unique_slots_def same_params_equiv[OF assms] by (rule refl)

lemma entries_nth: "v \<in> entries bs \<longleftrightarrow> (\<exists>j<length bs. bs ! j = Some v)"
  by (auto simp: entries_def in_set_conv_nth)

lemma entries_set_Some:
  assumes "f < length bs" "bs ! f = None"
  shows "entries (bs[f := Some v]) = insert v (entries bs)"
proof (rule set_eqI)
  fix x
  show "x \<in> entries (bs[f := Some v]) \<longleftrightarrow> x \<in> insert v (entries bs)"
  proof
    assume "x \<in> entries (bs[f := Some v])"
    then obtain j where j: "j < length bs" "bs[f := Some v] ! j = Some x"
      by (auto simp: entries_nth)
    then show "x \<in> insert v (entries bs)"
      using assms by (cases "j = f") (auto simp: entries_nth)
  next
    assume "x \<in> insert v (entries bs)"
    then consider "x = v" | j where "j < length bs" "bs ! j = Some x"
      by (auto simp: entries_nth)
    then show "x \<in> entries (bs[f := Some v])"
    proof cases
      case 1
      then show ?thesis using assms(1) unfolding entries_nth
        by (intro exI[of _ f]) simp
    next
      case 2
      then have "j \<noteq> f" using assms(2) by auto
      then show ?thesis using 2 unfolding entries_nth
        by (intro exI[of _ j]) simp
    qed
  qed
qed

lemma entries_replicate: "entries (replicate n None) = {}"
  by (auto simp: entries_def)

lemma probe_run_set_Some:
  assumes "probe_run bs a e any_entry"
  shows "probe_run (bs[f := Some v]) a e any_entry"
  unfolding probe_run_def
proof (intro allI impI)
  fix s assume s: "s < length (bs[f := Some v])"
    "cdist (length (bs[f := Some v])) a s < cdist (length (bs[f := Some v])) a e"
  show "case bs[f := Some v] ! s of None \<Rightarrow> False | Some w \<Rightarrow> any_entry w"
  proof (cases "s = f")
    case True
    then show ?thesis using s(1) by (simp add: any_entry_def)
  next
    case False
    then show ?thesis using assms s by (simp add: probe_run_def)
  qed
qed

lemma cdist_less_neq: "cdist N a s < cdist N a e \<Longrightarrow> s \<noteq> e"
  by auto

lemma placed_probe_inv:
  assumes inv: "probe_inv k" and f: "unat f < length (buckets_m k)" "buckets_m k ! unat f = None"
    and run: "probe_run (buckets_m k) (ideal k v) (unat f) any_entry"
  shows "probe_inv (placed k v f)"
  unfolding probe_inv_def
proof (intro allI impI)
  let ?bs = "buckets_m k"
  let ?bs' = "buckets_m (placed k v f)"
  fix j assume j: "j < length ?bs'"
  have bs': "?bs' = ?bs[unat f := Some v]" by (simp add: placed_def)
  have id: "\<And>w. ideal (placed k v f) w = ideal k w"
    by (rule same_params_ideal[OF same_params_placed])
  show "case ?bs' ! j of None \<Rightarrow> True
        | Some w \<Rightarrow> probe_run ?bs' (ideal (placed k v f) w) j any_entry"
  proof (cases "j = unat f")
    case True
    then have "?bs' ! j = Some v" using f(1) bs' by simp
    moreover have "probe_run ?bs' (ideal k v) (unat f) any_entry"
      unfolding bs' using run by (rule probe_run_set_Some)
    ultimately show ?thesis using True id by simp
  next
    case False
    then have eq: "?bs' ! j = ?bs ! j" using bs' by simp
    show ?thesis
    proof (cases "?bs ! j")
      case None
      then show ?thesis using eq by simp
    next
      case (Some w)
      then have "probe_run ?bs (ideal k w) j any_entry"
        using inv j bs' unfolding probe_inv_def by (auto split: option.splits)
      then have "probe_run ?bs' (ideal k w) j any_entry"
        unfolding bs' by (rule probe_run_set_Some)
      then show ?thesis using eq Some id by simp
    qed
  qed
qed

lemma placed_unique:
  assumes u: "unique_keys k" and f: "unat f < length (buckets_m k)" "buckets_m k ! unat f = None"
    and fresh: "\<forall>w\<in>entries (buckets_m k). \<not> equiv_entries k v w \<and> \<not> equiv_entries k w v"
  shows "unique_keys (placed k v f)"
proof -
  let ?bs = "buckets_m k"
  have bs': "buckets_m (placed k v f) = ?bs[unat f := Some v]" by (simp add: placed_def)
  have eq: "equiv_entries (placed k v f) = equiv_entries k"
    by (rule same_params_equiv[OF same_params_placed])
  have "\<And>i j x y. i < length ?bs \<Longrightarrow> j < length ?bs \<Longrightarrow> ?bs[unat f := Some v] ! i = Some x \<Longrightarrow>
          ?bs[unat f := Some v] ! j = Some y \<Longrightarrow> equiv_entries k x y \<Longrightarrow> i = j"
  proof -
    fix i j x y
    assume a: "i < length ?bs" "j < length ?bs" "?bs[unat f := Some v] ! i = Some x"
      "?bs[unat f := Some v] ! j = Some y" "equiv_entries k x y"
    show "i = j"
    proof (cases "i = unat f")
      case True
      show ?thesis
      proof (cases "j = unat f")
        case True
        with \<open>i = unat f\<close> show ?thesis by simp
      next
        case False
        then have "y \<in> entries ?bs" using a(2,4) by (auto simp: entries_nth)
        moreover have "x = v" using a(3) True f(1) by simp
        ultimately show ?thesis using fresh a(5) by blast
      qed
    next
      case False
      then have x: "?bs ! i = Some x" using a(3) by simp
      show ?thesis
      proof (cases "j = unat f")
        case True
        then have "y = v" using a(4) f(1) by simp
        moreover have "x \<in> entries ?bs" using x a(1) by (auto simp: entries_nth)
        ultimately show ?thesis using fresh a(5) by blast
      next
        case False
        then have "?bs ! j = Some y" using a(4) by simp
        with x a(1,2,5) u show ?thesis
          unfolding unique_keys_def unique_slots_def by (auto split: option.splits)
      qed
    qed
  qed
  then show ?thesis
    unfolding unique_keys_def unique_slots_def bs' eq
    by (auto split: option.splits)
qed

section \<open>The sweep of rehash when every entry fits\<close>

lemma insert_impl_place:
  "size_m k \<noteq> max_size_m k \<Longrightarrow> insert_impl n k v i = place k v i"
  by (cases n) simp_all

lemma unique_slots_tail: 
  assumes "unique_slots k (b # rest)" shows "unique_slots k rest"
  unfolding unique_slots_def
proof (intro allI impI)
  fix i j assume "i < length rest" "j < length rest"
  then have "Suc i < length (b # rest)" "Suc j < length (b # rest)" by simp_all
  with assms have "case (b # rest) ! Suc i of None \<Rightarrow> True
        | Some v \<Rightarrow> (case (b # rest) ! Suc j of None \<Rightarrow> True
                     | Some w \<Rightarrow> equiv_entries k v w \<longrightarrow> Suc i = Suc j)"
    unfolding unique_slots_def by blast
  then show "case rest ! i of None \<Rightarrow> True
        | Some v \<Rightarrow> (case rest ! j of None \<Rightarrow> True
                     | Some w \<Rightarrow> equiv_entries k v w \<longrightarrow> i = j)"
    by (simp split: option.splits)
qed

lemma unique_slots_head:
  assumes "unique_slots k (Some v # rest)" "w \<in> entries rest"
  shows "\<not> equiv_entries k v w \<and> \<not> equiv_entries k w v"
proof -
  from assms(2) obtain j where j: "j < length rest" "rest ! j = Some w"
    by (auto simp: entries_nth)
  have a: "0 < length (Some v # rest)" "Suc j < length (Some v # rest)" using j by simp_all
  have "case (Some v # rest) ! 0 of None \<Rightarrow> True
        | Some x \<Rightarrow> (case (Some v # rest) ! Suc j of None \<Rightarrow> True
                     | Some y \<Rightarrow> equiv_entries k x y \<longrightarrow> 0 = Suc j)"
    using assms(1) a unfolding unique_slots_def by blast
  moreover have "case (Some v # rest) ! Suc j of None \<Rightarrow> True
        | Some x \<Rightarrow> (case (Some v # rest) ! 0 of None \<Rightarrow> True
                     | Some y \<Rightarrow> equiv_entries k x y \<longrightarrow> Suc j = 0)"
    using assms(1) a unfolding unique_slots_def by blast
  ultimately show ?thesis using j(2) by simp
qed

lemma entries_Cons_None: "entries (None # rest) = entries rest"
  by (auto simp: entries_def)

lemma entries_Cons_Some: "entries (Some v # rest) = insert v (entries rest)"
  by (auto simp: entries_def)

lemma rehash_sweep_clean:
  assumes "table_ok k" 
    and "unat (size_m k) + occupied_count rest \<le> unat (max_size_m k)"
    and "bucket_count_m k = cnt"
  shows "\<exists>k'. rehash_sweep n k rest cnt = Some (Inr k') \<and> table_ok k' \<and> same_params k' k \<and>
           unat (size_m k') = unat (size_m k) + occupied_count rest \<and>
           entries (buckets_m k') = entries (buckets_m k) \<union> entries rest \<and>
           (probe_inv k \<longrightarrow> probe_inv k') \<and>
           (unique_keys k \<and> unique_slots k rest \<and>
              unrelated k (entries (buckets_m k)) (entries rest) \<longrightarrow> unique_keys k')"
  using assms
proof (induction rest arbitrary: k)
  case Nil
  then show ?case by (simp add: same_params_refl occupied_count_def entries_def)
next
  case (Cons b rest)
  show ?case
  proof (cases b)
    case None
    have "unat (size_m k) + occupied_count rest \<le> unat (max_size_m k)"
      using Cons.prems(2) None by (simp add: occupied_count_Cons)
    from Cons.IH[OF Cons.prems(1) this Cons.prems(3)] obtain k' where
      k': "rehash_sweep n k rest cnt = Some (Inr k')" "table_ok k'" "same_params k' k"
        "unat (size_m k') = unat (size_m k) + occupied_count rest"
        "entries (buckets_m k') = entries (buckets_m k) \<union> entries rest"
        "probe_inv k \<longrightarrow> probe_inv k'"
        "unique_keys k \<and> unique_slots k rest \<and>
              unrelated k (entries (buckets_m k)) (entries rest) \<longrightarrow> unique_keys k'"
      by blast
    have "unique_slots k (b # rest) \<Longrightarrow> unique_slots k rest" by (rule unique_slots_tail)
    then show ?thesis
      using k' None by (auto simp: occupied_count_Cons entries_Cons_None)
  next
    case (Some v)
    let ?i = "index_from_value k v"
    have room: "unat (size_m k) < unat (max_size_m k)"
      using Cons.prems(2) Some by (simp add: occupied_count_Cons)
    then have ne: "size_m k \<noteq> max_size_m k" by auto
    have i: "unat ?i < capacity k"
      using Cons.prems(1) by (simp add: index_from_value_def table_ok_index_from_key_less)
    from place_total[OF Cons.prems(1) i, of v] obtain f where
      f: "place k v ?i = Some (Inr (placed k v f, f))" "unat f < capacity k"
         "buckets_m k ! unat f = None" "probe_run (buckets_m k) (unat ?i) (unat f) any_entry"
      by blast
    let ?k1 = "placed k v f"
    have len: "length (buckets_m k) = capacity k" using Cons.prems(1) by (rule table_ok_length)
    have ok1: "table_ok ?k1" using Cons.prems(1) f(2,3) ne by (rule placed_table_ok)
    have sp1: "same_params ?k1 k" by (rule same_params_placed)
    have sz1: "unat (size_m ?k1) = Suc (unat (size_m k))"
      using table_ok_size[OF ok1] table_ok_size[OF Cons.prems(1)] f(2,3) len
      by (simp add: placed_def occupied_count_set_Some)
    have bc1: "bucket_count_m ?k1 = cnt" using Cons.prems(3) by (simp add: placed_def)
    have "unat (size_m ?k1) + occupied_count rest \<le> unat (max_size_m ?k1)"
      using Cons.prems(2) Some sz1 by (simp add: occupied_count_Cons placed_def)
    from Cons.IH[OF ok1 this bc1] obtain k' where
      k': "rehash_sweep n ?k1 rest cnt = Some (Inr k')" "table_ok k'" "same_params k' ?k1"
        "unat (size_m k') = unat (size_m ?k1) + occupied_count rest"
        "entries (buckets_m k') = entries (buckets_m ?k1) \<union> entries rest"
        "probe_inv ?k1 \<longrightarrow> probe_inv k'"
        "unique_keys ?k1 \<and> unique_slots ?k1 rest \<and>
              unrelated ?k1 (entries (buckets_m ?k1)) (entries rest) \<longrightarrow> unique_keys k'"
      by blast
    have ent1: "entries (buckets_m ?k1) = insert v (entries (buckets_m k))"
      using f(2,3) len by (simp add: placed_def entries_set_Some)
    have run: "rehash_sweep n k (b # rest) cnt = Some (Inr k')"
      using Some f(1) ne bc1 k'(1) by (simp add: insert_impl_place)
    have pi: "probe_inv k \<longrightarrow> probe_inv k'"
    proof
      assume "probe_inv k"
      then have "probe_inv ?k1"
        using f(2,3,4) len by (intro placed_probe_inv) (simp_all add: ideal_def)
      then show "probe_inv k'" using k'(6) by simp
    qed
    have uq: "unique_keys k \<and> unique_slots k (b # rest) \<and>
              unrelated k (entries (buckets_m k)) (entries (b # rest)) \<longrightarrow> unique_keys k'"
    proof
      assume a: "unique_keys k \<and> unique_slots k (b # rest) \<and>
              unrelated k (entries (buckets_m k)) (entries (b # rest))"
      have e1: "equiv_entries ?k1 = equiv_entries k" by (rule same_params_equiv[OF sp1])
      have "\<forall>w\<in>entries (buckets_m k). \<not> equiv_entries k v w \<and> \<not> equiv_entries k w v"
        using a Some by (auto simp: unrelated_def entries_Cons_Some)
      with a have u1: "unique_keys ?k1"
        using f(2,3) len by (intro placed_unique) simp_all
      have u2: "unique_slots ?k1 rest"
        using a unique_slots_tail same_params_unique_slots[OF sp1] by blast
      have "unrelated k (insert v (entries (buckets_m k))) (entries rest)"
        using a Some unique_slots_head[of k v rest]
        by (auto simp: unrelated_def entries_Cons_Some)
      then have u3: "unrelated ?k1 (entries (buckets_m ?k1)) (entries rest)"
        by (simp add: unrelated_def e1 ent1)
      show "unique_keys k'" using k'(7) u1 u2 u3 by simp
    qed
    show ?thesis
      using run k'(2) same_params_trans[OF k'(3) sp1] k'(4) sz1 k'(5) ent1 pi uq Some
      by (auto simp: occupied_count_Cons entries_Cons_Some)
  qed
qed

section \<open>Rehashing to a power of two with room for every entry\<close>

lemma or_mask_drop: "(mask q :: size_t) OR drop_bit s (mask q) = mask q"
  by (rule bit_eqI) (auto simp: bit_or_iff bit_drop_bit_eq bit_mask_iff)

lemma upper_power_of_two_pow2: "upper_power_of_two (2 ^ q) = 2 ^ q"
proof -
  have "(2::size_t) ^ q - 1 = mask q" by (simp add: mask_eq_exp_minus_1)
  then have "upper_power_of_two (2 ^ q) = mask q + 1"
    unfolding upper_power_of_two_def Let_def by (simp only: or_mask_drop)
  then show ?thesis by (simp add: mask_eq_exp_minus_1)
qed

lemma rehash_fresh:
  "rehash n k cnt = rehash_sweep n (fresh k (upper_power_of_two cnt)) (buckets_m k) cnt"
  by (simp add: fresh_def Let_def)

lemma fresh_table_ok:
  assumes "min_load_m k = min_load_default" "max_load_m k = max_load_default" "q < 64"
  shows "table_ok (fresh k (2 ^ q))"
  using assms unfolding table_ok_def fresh_def
  by (auto simp: occupied_count_replicate)

lemma fresh_probe_inv: "probe_inv (fresh k bc)"
  by (simp add: probe_inv_def fresh_def)

lemma fresh_unique_keys: "unique_keys (fresh k bc)"
  by (simp add: unique_keys_def unique_slots_def fresh_def)

lemma fresh_entries: "entries (buckets_m (fresh k bc)) = {}"
  by (simp add: fresh_def entries_replicate)

lemma fresh_equiv: "equiv_entries (fresh k bc) = equiv_entries k"
  by (auto simp: fresh_def equiv_entries_def fun_eq_iff)

lemma fresh_unique_slots: "unique_slots (fresh k bc) bs = unique_slots k bs"
  unfolding unique_slots_def fresh_equiv by (rule refl)

lemma same_params_functors: "same_params k' k \<Longrightarrow> same_functors k' k"
  by (simp add: same_params_def same_functors_def)

lemma same_functors_fresh: "same_functors (fresh k bc) k"
  by (simp add: same_functors_def fresh_def)

lemma same_functors_trans: "same_functors k'' k' \<Longrightarrow> same_functors k' k \<Longrightarrow> same_functors k'' k"
  by (simp add: same_functors_def)

lemma same_functors_refl: "same_functors k k"
  by (simp add: same_functors_def)

lemma same_functors_equiv: "same_functors k' k \<Longrightarrow> equiv_entries k' = equiv_entries k"
  by (auto simp: same_functors_def equiv_entries_def fun_eq_iff)

lemma same_functors_unique_slots:
  assumes "same_functors k' k"
  shows "unique_slots k' bs = unique_slots k bs"
  unfolding unique_slots_def same_functors_equiv[OF assms] by (rule refl)

lemma rehash_clean:
  assumes ok: "table_ok k" and q: "q < 64"
    and room: "unat (size_m k) \<le> 11744051 * 2 ^ q div 2 ^ 24"
  shows "\<exists>k'. rehash n k (2 ^ q) = Some (Inr k') \<and> table_ok k' \<and> probe_inv k' \<and>
           bucket_count_m k' = 2 ^ q \<and> same_functors k' k \<and> size_m k' = size_m k \<and>
           entries (buckets_m k') = entries (buckets_m k) \<and>
           (unique_keys k \<longrightarrow> unique_keys k')"
proof -
  let ?k0 = "fresh k (2 ^ q)"
  have loads: "min_load_m k = min_load_default" "max_load_m k = max_load_default"
    using ok by (simp_all add: table_ok_def)
  have ok0: "table_ok ?k0" using loads q by (rule fresh_table_ok)
  have bc0: "bucket_count_m ?k0 = 2 ^ q" by (simp add: fresh_def)
  have max0: "unat (max_size_m ?k0) = 11744051 * 2 ^ q div 2 ^ 24"
    using max_load_bound(1)[OF q] loads by (simp add: fresh_def)
  have "unat (size_m ?k0) + occupied_count (buckets_m k) \<le> unat (max_size_m ?k0)"
    using room max0 table_ok_size[OF ok] by (simp add: fresh_def)
  from rehash_sweep_clean[OF ok0 this bc0, of n] obtain k' where
    k': "rehash_sweep n ?k0 (buckets_m k) (2 ^ q) = Some (Inr k')" "table_ok k'"
      "same_params k' ?k0"
      "unat (size_m k') = unat (size_m ?k0) + occupied_count (buckets_m k)"
      "entries (buckets_m k') = entries (buckets_m ?k0) \<union> entries (buckets_m k)"
      "probe_inv ?k0 \<longrightarrow> probe_inv k'"
      "unique_keys ?k0 \<and> unique_slots ?k0 (buckets_m k) \<and>
         unrelated ?k0 (entries (buckets_m ?k0)) (entries (buckets_m k)) \<longrightarrow> unique_keys k'"
    by blast
  have "rehash n k (2 ^ q) = Some (Inr k')"
    using k'(1) by (simp only: rehash_fresh upper_power_of_two_pow2)
  moreover have "probe_inv k'" using k'(6) fresh_probe_inv by blast
  moreover have "bucket_count_m k' = 2 ^ q" using k'(3) bc0 by (simp add: same_params_def)
  moreover have "same_functors k' k"
    using same_params_functors[OF k'(3)] same_functors_fresh same_functors_trans by blast
  moreover have "size_m k' = size_m k"
    using k'(4) table_ok_size[OF ok] by (simp add: fresh_def word_unat_eq_iff)
  moreover have "entries (buckets_m k') = entries (buckets_m k)"
    using k'(5) by (simp add: fresh_entries)
  moreover have "unique_keys k \<longrightarrow> unique_keys k'"
    using k'(7) fresh_unique_keys[of k "2 ^ q"] fresh_unique_slots[of k "2 ^ q" "buckets_m k"]
    by (simp add: fresh_entries unrelated_def unique_keys_def)
  ultimately show ?thesis using k'(2) by blast
qed

section \<open>The private insert\<close>

lemma max_load_grow:
  "11744051 * 2 ^ p div 2 ^ 24 < 11744051 * 2 ^ Suc p div (2 ^ 24 :: nat)"
proof -
  let ?a = "11744051 * 2 ^ p :: nat"
  have "(1::nat) \<le> 2 ^ p" by simp
  then have "8388608 * 1 \<le> ?a" by (intro mult_le_mono) simp_all
  then have "1 \<le> ?a div 8388608" by (simp add: less_eq_div_iff_mult_less_eq)
  then have "(?a div 8388608) div 2 < ?a div 8388608" by simp
  moreover have "?a div 16777216 = (?a div 8388608) div 2"
    by (simp add: div_mult2_eq[symmetric])
  ultimately show ?thesis by simp
qed

lemma min_load_shrink:
  "10066330 * 2 ^ Suc p div 2 ^ 25 \<le> 11744051 * 2 ^ p div (2 ^ 24 :: nat)"
  by simp

lemma place_step:
  assumes ok: "table_ok k" and room: "size_m k \<noteq> max_size_m k"
  shows "\<exists>f. insert_impl n k v (index_from_value k v) = Some (Inr (placed k v f, f)) \<and>
           unat f < capacity k \<and> buckets_m k ! unat f = None \<and>
           table_ok (placed k v f) \<and>
           unat (size_m (placed k v f)) = Suc (unat (size_m k)) \<and>
           entries (buckets_m (placed k v f)) = insert v (entries (buckets_m k)) \<and>
           buckets_m (placed k v f) ! unat f = Some v \<and>
           (probe_inv k \<longrightarrow> probe_inv (placed k v f)) \<and>
           (unique_keys k \<and>
             (\<forall>w\<in>entries (buckets_m k). \<not> equiv_entries k v w \<and> \<not> equiv_entries k w v)
             \<longrightarrow> unique_keys (placed k v f))"
proof -
  let ?i = "index_from_value k v"
  have i: "unat ?i < capacity k"
    using ok by (simp add: index_from_value_def table_ok_index_from_key_less)
  from place_total[OF ok i, of v] obtain f where
    f: "place k v ?i = Some (Inr (placed k v f, f))" "unat f < capacity k"
       "buckets_m k ! unat f = None" "probe_run (buckets_m k) (unat ?i) (unat f) any_entry"
    by blast
  let ?k1 = "placed k v f"
  have len: "length (buckets_m k) = capacity k" using ok by (rule table_ok_length)
  have ok1: "table_ok ?k1" using ok f(2,3) room by (rule placed_table_ok)
  have sz1: "unat (size_m ?k1) = Suc (unat (size_m k))"
    using table_ok_size[OF ok1] table_ok_size[OF ok] f(2,3) len
    by (simp add: placed_def occupied_count_set_Some)
  have ent1: "entries (buckets_m ?k1) = insert v (entries (buckets_m k))"
    using f(2,3) len by (simp add: placed_def entries_set_Some)
  have at: "buckets_m ?k1 ! unat f = Some v" using f(2) len by (simp add: placed_def)
  have pi: "probe_inv k \<longrightarrow> probe_inv ?k1"
    using f(2,3,4) len by (auto intro!: placed_probe_inv simp: ideal_def)
  have uq: "unique_keys k \<and>
             (\<forall>w\<in>entries (buckets_m k). \<not> equiv_entries k v w \<and> \<not> equiv_entries k w v)
             \<longrightarrow> unique_keys ?k1"
    using f(2,3) len by (auto intro!: placed_unique)
  have "insert_impl n k v ?i = Some (Inr (?k1, f))"
    using f(1) room by (simp add: insert_impl_place)
  then show ?thesis using f(2,3) ok1 sz1 ent1 at pi uq by blast
qed

lemma insert_impl_ok:
  assumes ok: "table_ok k" and small: "capacity k < 2 ^ 63"
  shows "\<exists>k' it. insert_impl (Suc n) k v (index_from_value k v) = Some (Inr (k', it)) \<and>
           table_ok k' \<and> same_functors k' k \<and>
           unat it < capacity k' \<and> buckets_m k' ! unat it = Some v \<and>
           unat (size_m k') = Suc (unat (size_m k)) \<and>
           entries (buckets_m k') = insert v (entries (buckets_m k)) \<and>
           (probe_inv k \<longrightarrow> probe_inv k') \<and>
           (unique_keys k \<and>
             (\<forall>w\<in>entries (buckets_m k). \<not> equiv_entries k v w \<and> \<not> equiv_entries k w v)
             \<longrightarrow> unique_keys k') \<and>
           bucket_count_m k' =
             (if size_m k = max_size_m k then bucket_count_m k * 2 else bucket_count_m k)"
proof (cases "size_m k = max_size_m k")
  case False
  from place_step[OF ok False, of "Suc n" v] obtain f where
    f: "insert_impl (Suc n) k v (index_from_value k v) = Some (Inr (placed k v f, f))"
      "unat f < capacity k" "buckets_m k ! unat f = None"
      "table_ok (placed k v f)"
      "unat (size_m (placed k v f)) = Suc (unat (size_m k))"
      "entries (buckets_m (placed k v f)) = insert v (entries (buckets_m k))"
      "buckets_m (placed k v f) ! unat f = Some v"
      "probe_inv k \<longrightarrow> probe_inv (placed k v f)"
      "unique_keys k \<and>
        (\<forall>w\<in>entries (buckets_m k). \<not> equiv_entries k v w \<and> \<not> equiv_entries k w v)
        \<longrightarrow> unique_keys (placed k v f)"
    by blast
  have "same_functors (placed k v f) k"
    by (rule same_params_functors[OF same_params_placed])
  moreover have "capacity (placed k v f) = capacity k"
    by (rule same_params_capacity[OF same_params_placed])
  moreover have "bucket_count_m (placed k v f) = bucket_count_m k" by (simp add: placed_def)
  ultimately show ?thesis using f False by (intro exI[of _ "placed k v f"] exI[of _ f]) simp
next
  case True
  from ok obtain p where p: "p < 64" "bucket_count_m k = 2 ^ p" "capacity k = 2 ^ p"
    by (rule table_ok_pow2)
  have "(2::nat) ^ p < 2 ^ 63" using small p(3) by simp
  then have "p < 63" by (rule power_less_imp_less_exp[rotated]) simp
  then have q: "Suc p < 64" by simp
  have dbl: "bucket_count_m k * 2 = 2 ^ Suc p" using p(2) by simp
  have max: "unat (max_size_m k) = 11744051 * 2 ^ p div 2 ^ 24"
    using table_ok_max_size(1)[OF ok] p(3) by simp
  have room: "unat (size_m k) \<le> 11744051 * 2 ^ Suc p div 2 ^ 24"
    using True max max_load_grow[of p] by simp
  from rehash_clean[OF ok q room, of n] obtain k1 where
    k1: "rehash n k (2 ^ Suc p) = Some (Inr k1)" "table_ok k1" "probe_inv k1"
      "bucket_count_m k1 = 2 ^ Suc p" "same_functors k1 k" "size_m k1 = size_m k"
      "entries (buckets_m k1) = entries (buckets_m k)"
      "unique_keys k \<longrightarrow> unique_keys k1"
    by blast
  have cap1: "capacity k1 = 2 ^ Suc p" using k1(4) unat_pow2[OF q] by (simp add: capacity_def)
  have "unat (max_size_m k1) = 11744051 * 2 ^ Suc p div 2 ^ 24"
    using table_ok_max_size(1)[OF k1(2)] cap1 by simp
  then have "unat (size_m k1) < unat (max_size_m k1)"
    using k1(6) True max max_load_grow[of p] by simp
  then have ne1: "size_m k1 \<noteq> max_size_m k1" by auto
  from place_step[OF k1(2) ne1, of n v] obtain f where
    f: "insert_impl n k1 v (index_from_value k1 v) = Some (Inr (placed k1 v f, f))"
      "unat f < capacity k1" "buckets_m k1 ! unat f = None"
      "table_ok (placed k1 v f)"
      "unat (size_m (placed k1 v f)) = Suc (unat (size_m k1))"
      "entries (buckets_m (placed k1 v f)) = insert v (entries (buckets_m k1))"
      "buckets_m (placed k1 v f) ! unat f = Some v"
      "probe_inv k1 \<longrightarrow> probe_inv (placed k1 v f)"
      "unique_keys k1 \<and>
        (\<forall>w\<in>entries (buckets_m k1). \<not> equiv_entries k1 v w \<and> \<not> equiv_entries k1 w v)
        \<longrightarrow> unique_keys (placed k1 v f)"
    by blast
  let ?k' = "placed k1 v f"
  have run: "insert_impl (Suc n) k v (index_from_value k v) = Some (Inr (?k', f))"
    unfolding insert_impl.simps using True k1(1) f(1) dbl by simp
  have sf: "same_functors ?k' k"
    by (rule same_functors_trans[OF same_params_functors[OF same_params_placed] k1(5)])
  have capk': "capacity ?k' = capacity k1"
    by (rule same_params_capacity[OF same_params_placed])
  have c1: "unat f < capacity ?k'" using f(2) capk' by simp
  have c2: "unat (size_m ?k') = Suc (unat (size_m k))" using f(5) k1(6) by simp
  have c3: "entries (buckets_m ?k') = insert v (entries (buckets_m k))" using f(6) k1(7) by simp
  have c4: "probe_inv k \<longrightarrow> probe_inv ?k'" using f(8) k1(3) by simp
  have bc: "bucket_count_m ?k' =
      (if size_m k = max_size_m k then bucket_count_m k * 2 else bucket_count_m k)"
    using k1(4) dbl True by (simp add: placed_def)
  have e1: "equiv_entries k1 = equiv_entries k" by (rule same_functors_equiv[OF k1(5)])
  have uq: "unique_keys k \<and>
             (\<forall>w\<in>entries (buckets_m k). \<not> equiv_entries k v w \<and> \<not> equiv_entries k w v)
             \<longrightarrow> unique_keys ?k'"
    using f(9) k1(8) unfolding k1(7) e1 by blast
  show ?thesis
    using run f(4) sf c1 f(7) c2 c3 c4 uq bc by blast
qed

section \<open>The public insert\<close>

lemma cdist_inj: "a < N \<Longrightarrow> j < N \<Longrightarrow> e < N \<Longrightarrow> cdist N a j = cdist N a e \<Longrightarrow> j = e"
  by (auto simp: cdist_def split: if_splits)

lemma probe_run_nth:
  "probe_run bs a e P \<Longrightarrow> s < length bs \<Longrightarrow> cdist (length bs) a s < cdist (length bs) a e
    \<Longrightarrow> \<exists>w. bs ! s = Some w \<and> P w"
  unfolding probe_run_def by (auto split: option.splits)

lemma find_absent_complete:
  assumes ok: "table_ok k" and pi: "probe_inv k" and caps: "capabilities_ok k"
    and e: "e < capacity k" "buckets_m k ! e = None"
    and run: "probe_run (buckets_m k) (unat (index_from_key k key)) e (no_match k key)"
  shows "\<forall>w\<in>entries (buckets_m k). \<not> equal_m k key (extract_m k w)"
proof
  fix w assume "w \<in> entries (buckets_m k)"
  then obtain j where j: "j < length (buckets_m k)" "buckets_m k ! j = Some w"
    by (auto simp: entries_nth)
  let ?N = "capacity k"
  let ?a = "unat (index_from_key k key)"
  have len: "length (buckets_m k) = ?N" using ok by (rule table_ok_length)
  have a: "?a < ?N" using ok by (rule table_ok_index_from_key_less)
  show "\<not> equal_m k key (extract_m k w)"
  proof
    assume eq: "equal_m k key (extract_m k w)"
    then have "hash_m k key = hash_m k (extract_m k w)"
      using caps unfolding capabilities_ok_def by blast
    then have id: "ideal k w = ?a"
      by (simp add: ideal_def index_from_value_def index_from_key_def)
    have runj: "probe_run (buckets_m k) ?a j any_entry"
      using pi j id unfolding probe_inv_def by (auto split: option.splits)
    consider "cdist ?N ?a j < cdist ?N ?a e" | "cdist ?N ?a e < cdist ?N ?a j"
      | "cdist ?N ?a j = cdist ?N ?a e" by linarith
    then show False
    proof cases
      case 1
      from probe_run_nth[OF run j(1)] 1 len obtain w' where
        "buckets_m k ! j = Some w'" "no_match k key w'" by auto
      then show False using j(2) eq by (simp add: no_match_def)
    next
      case 2
      from probe_run_nth[OF runj] e(1) 2 len obtain w' where "buckets_m k ! e = Some w'"
        by auto
      then show False using e(2) by simp
    next
      case 3
      then have "j = e" using cdist_inj[OF a _ e(1)] j(1) len by simp
      then show False using j(2) e(2) by simp
    qed
  qed
qed

lemma find_key_total:
  assumes "table_ok k"
  shows "\<exists>r. find_key k key = Some (Inr r) \<and> find_post k key (unat (index_from_key k key)) r"
  unfolding find_key_def
  using find_impl_total[OF assms table_ok_index_from_key_less[OF assms]] by blast

lemma find_post_cases:
  assumes "table_ok k" "find_post k key a r"
  obtains (absent) e where "r = bucket_count_m k" "unat r = length (buckets_m k)"
      "e < capacity k" "buckets_m k ! e = None" "probe_run (buckets_m k) a e (no_match k key)"
    | (found) w where "unat r < capacity k" "unat r \<noteq> length (buckets_m k)"
      "r \<noteq> bucket_count_m k"
      "buckets_m k ! unat r = Some w" "equal_m k key (extract_m k w)"
      "probe_run (buckets_m k) a (unat r) (no_match k key)"
proof -
  have len: "length (buckets_m k) = capacity k" using assms(1) by (rule table_ok_length)
  from assms(2) consider
    (a) e where "r = bucket_count_m k" "e < capacity k" "buckets_m k ! e = None"
      "probe_run (buckets_m k) a e (no_match k key)"
    | (b) w where "unat r < capacity k" "buckets_m k ! unat r = Some w"
      "equal_m k key (extract_m k w)" "probe_run (buckets_m k) a (unat r) (no_match k key)"
    unfolding find_post_def by blast
  then show ?thesis
  proof cases
    case a
    then show ?thesis using absent[of e] len by (simp add: capacity_def)
  next
    case b
    then show ?thesis using found[of w] len by (auto simp: capacity_def)
  qed
qed

lemma capabilities_ok_cong: "same_functors k' k \<Longrightarrow> capabilities_ok k' = capabilities_ok k"
  by (simp add: capabilities_ok_def same_functors_def)

lemma insert_value_ok:
  assumes ok: "table_ok k" and small: "capacity k < 2 ^ 63"
  shows "\<exists>k' it b. insert_value (Suc n) k v = Some (Inr (k', it, b)) \<and>
           table_ok k' \<and> same_functors k' k \<and> unat it < capacity k' \<and>
           (probe_inv k \<longrightarrow> probe_inv k') \<and>
           (probe_inv k \<and> unique_keys k \<and> capabilities_ok k \<longrightarrow> unique_keys k') \<and>
           (b \<longrightarrow> find_key k (extract_m k v) = Some (Inr (bucket_count_m k)) \<and>
                 buckets_m k' ! unat it = Some v \<and>
                 unat (size_m k') = Suc (unat (size_m k)) \<and>
                 entries (buckets_m k') = insert v (entries (buckets_m k)) \<and>
                 bucket_count_m k' =
                  (if size_m k = max_size_m k then bucket_count_m k * 2 else bucket_count_m k)) \<and>
           (\<not> b \<longrightarrow> k' = k \<and> find_key k (extract_m k v) = Some (Inr it) \<and>
                 (\<exists>w. buckets_m k ! unat it = Some w \<and>
                      equal_m k (extract_m k v) (extract_m k w)))"
proof -
  let ?key = "extract_m k v"
  let ?i = "index_from_value k v"
  have i: "?i = index_from_key k ?key" by (simp add: index_from_value_def)
  from find_key_total[OF ok, of ?key] obtain r where
    r: "find_key k ?key = Some (Inr r)" "find_post k ?key (unat ?i) r"
    by (auto simp: i)
  have fi: "find_impl k ?key ?i = Some (Inr r)" using r(1) by (simp add: find_key_def i)
  from ok r(2) show ?thesis
  proof (cases rule: find_post_cases)
    case (found w)
    have "insert_value (Suc n) k v = Some (Inr (k, r, False))"
      using fi found(2) unfolding insert_value_def Let_def by simp
    moreover have "\<exists>w. buckets_m k ! unat r = Some w \<and> equal_m k ?key (extract_m k w)"
      using found(4,5) by blast
    ultimately show ?thesis
      using ok found(1) r(1) same_functors_refl[of k] by blast
  next
    case (absent e)
    from insert_impl_ok[OF ok small, of n v] obtain k' it where
      k': "insert_impl (Suc n) k v ?i = Some (Inr (k', it))"
        "table_ok k'" "same_functors k' k"
        "unat it < capacity k'" "buckets_m k' ! unat it = Some v"
        "unat (size_m k') = Suc (unat (size_m k))"
        "entries (buckets_m k') = insert v (entries (buckets_m k))"
        "probe_inv k \<longrightarrow> probe_inv k'"
        "unique_keys k \<and>
          (\<forall>w\<in>entries (buckets_m k). \<not> equiv_entries k v w \<and> \<not> equiv_entries k w v)
          \<longrightarrow> unique_keys k'"
        "bucket_count_m k' =
          (if size_m k = max_size_m k then bucket_count_m k * 2 else bucket_count_m k)"
      by blast
    have run: "insert_value (Suc n) k v = Some (Inr (k', it, True))"
      using fi absent(2) k'(1) unfolding insert_value_def Let_def by simp
    have uq: "probe_inv k \<and> unique_keys k \<and> capabilities_ok k \<longrightarrow> unique_keys k'"
    proof
      assume a: "probe_inv k \<and> unique_keys k \<and> capabilities_ok k"
      have "\<forall>w\<in>entries (buckets_m k). \<not> equal_m k ?key (extract_m k w)"
        using absent(3,4,5) a ok by (intro find_absent_complete[of k e]) (simp_all add: i)
      then have "\<forall>w\<in>entries (buckets_m k). \<not> equiv_entries k v w \<and> \<not> equiv_entries k w v"
        using a unfolding equiv_entries_def capabilities_ok_def by blast
      then show "unique_keys k'" using k'(9) a by blast
    qed
    have fk: "find_key k ?key = Some (Inr (bucket_count_m k))" using r(1) absent(1) by simp
    show ?thesis
      using run k'(2,3,4,5,6,7,8,10) uq fk by blast
  qed
qed

lemma set4_table_ok: "size_t_n \<le> 2 \<Longrightarrow> occupied_count bs = unat size_t_n \<Longrightarrow> length bs = 4 \<Longrightarrow> table_ok (set4 bs size_t_n)"
  unfolding table_ok_def set4_eq
  by (auto simp: load_times_def min_load_default_def max_load_default_def intro!: exI[of _ 2])

lemma set4_capabilities_ok: "capabilities_ok (set4 bs n)"
  unfolding capabilities_ok_def set4_eq by simp

lemma set4_capacity: "capacity (set4 bs n) = 4"
  by (simp add: capacity_def set4_eq)

lemma set4_probe_inv: "probe_inv (set4 [None, Some 1, Some 5, None] 2)"
  unfolding probe_inv_def probe_run_def
  by (simp add: set4_eq All_less_Suc ideal_def index_from_value_def index_from_key_def
      cdist_def any_entry_def)

lemma set4_unique_keys: "unique_keys (set4 [None, Some 1, Some 5, None] 2)"
  unfolding unique_keys_def unique_slots_def
  by (simp add: set4_eq All_less_Suc equiv_entries_def)

section \<open>Insertion keeps the load bound\<close>






section \<open>The indexing accessor\<close>

lemma map4_eq:
  "map4 bs n =
    \<lparr> hash_m = (\<lambda>x. x), equal_m = (=), extract_m = fst, mapped_extract_m = snd,
      buckets_m = bs,
      min_load_m = Dyadic 10066330 25, max_load_m = Dyadic 11744051 24,
      bucket_count_m = 4, size_m = n, min_size_m = 1, max_size_m = 2 \<rparr>"
  by (simp add: map4_def kernel_new_def upper_power_of_two_def load_times_def
      min_load_default_def max_load_default_def)

lemma map4_table_ok: "table_ok (map4 [None, Some (1, 10), None, None] 1)"
  unfolding table_ok_def map4_eq
  by (auto simp: load_times_def min_load_default_def max_load_default_def occupied_count_def
      intro!: exI[of _ 2])

text \<open>
  C10. \<open>operator[]\<close> in a well-formed table: \<open>find\<close> returns; when it returns the end
  position (the key is absent) the accessor indexes the bucket vector at \<open>bucket_count_\<close>,
  one past its last element, and nothing is inserted; when it returns a position, the
  accessor yields the mapped part of the entry there and the table is as it was. Whatever
  the table, a call that returns leaves it unchanged.
\<close>

theorem subscript_never_inserts:
  assumes "table_ok k"
  shows "\<exists>r. find_key k key = Some (Inr r) \<and>
           (r = bucket_count_m k \<longrightarrow>
              subscript k key = Some (Inl (Out_Of_Range (length (buckets_m k)))) \<and>
              unat r = length (buckets_m k)) \<and>
           (r \<noteq> bucket_count_m k \<longrightarrow>
              (\<exists>v. buckets_m k ! unat r = Some v \<and> equal_m k key (extract_m k v) \<and>
                   subscript k key = Some (Inr (k, mapped_extract_m k v)))) \<and>
           (\<forall>k' m. subscript k key = Some (Inr (k', m)) \<longrightarrow> k' = k)"
proof -
  from find_key_total[OF assms, of key] obtain r where
    r: "find_key k key = Some (Inr r)" "find_post k key (unat (index_from_key k key)) r"
    by blast
  have fi: "find_impl k key (index_from_key k key) = Some (Inr r)"
    using r(1) by (simp add: find_key_def)
  have len: "length (buckets_m k) = capacity k" using assms by (rule table_ok_length)
  have frame: "\<forall>k' m. subscript k key = Some (Inr (k', m)) \<longrightarrow> k' = k"
    unfolding subscript_def by (auto split: option.splits sum.splits if_splits)
  from assms r(2) show ?thesis
  proof (cases rule: find_post_cases)
    case (absent e)
    then have "subscript k key = Some (Inl (Out_Of_Range (length (buckets_m k))))"
      using fi by (simp add: subscript_def)
    then show ?thesis using r(1) absent(1,2) frame by blast
  next
    case (found w)
    then have "subscript k key = Some (Inr (k, mapped_extract_m k w))"
      using fi len by (simp add: subscript_def)
    then show ?thesis using r(1) found(3,4,5) frame by blast
  qed
qed

theorem subscript_never_inserts_witness:
  "find_key (map4 [None, Some (1, 10), None, None] 1) 2 = Some (Inr 4) \<and>
   subscript (map4 [None, Some (1, 10), None, None] 1) 2 = Some (Inl (Out_Of_Range 4)) \<and>
   find_key (map4 [None, Some (1, 10), None, None] 1) 1 = Some (Inr 1) \<and>
   subscript (map4 [None, Some (1, 10), None, None] 1) 1 =
     Some (Inr (map4 [None, Some (1, 10), None, None] 1, 10))"
proof -
  let ?k = "map4 [None, Some (1, 10), None, None] 1"
  have f2: "find_key ?k 2 = Some (Inr 4)" by (simp add: map4_eq kernel_eval)
  have f1: "find_key ?k 1 = Some (Inr 1)" by (simp add: map4_eq kernel_eval)
  have bc: "bucket_count_m ?k = 4" "length (buckets_m ?k) = 4" "buckets_m ?k ! 1 = Some (1, 10)"
    "mapped_extract_m ?k (1, 10) = 10"
    by (simp_all add: map4_eq)
  from subscript_never_inserts[OF map4_table_ok, of 2] f2 bc(1,2)
  have s2: "subscript ?k 2 = Some (Inl (Out_Of_Range 4))" by auto
  from subscript_never_inserts[OF map4_table_ok, of 1] f1 bc
  have s1: "subscript ?k 1 = Some (Inr (?k, 10))" by auto
  show ?thesis using f1 f2 s1 s2 by simp
qed

section \<open>Arcs, and the first loop of erase\<close>

lemma arc_exit:
  "h < N \<Longrightarrow> g < N \<Longrightarrow> i < N \<Longrightarrow> j < N \<Longrightarrow>
    cdist N h g < cdist N h j \<Longrightarrow> cdist N g i < cdist N g j \<Longrightarrow> cdist N h i < cdist N h j"
  by (auto simp: cdist_def split: if_splits)

lemma arc_advance:
  "i < N \<Longrightarrow> g < N \<Longrightarrow> e < N \<Longrightarrow> cdist N i e < cdist N i g \<Longrightarrow> i \<noteq> e \<Longrightarrow>
    cnext N i \<noteq> g \<and> cdist N (cnext N i) e < cdist N (cnext N i) g"
  by (auto simp: cdist_def cnext_def split: if_splits)

lemma arc_next_dist:
  "i < N \<Longrightarrow> g < N \<Longrightarrow> cnext N i \<noteq> g \<Longrightarrow> cdist N g (cnext N i) = Suc (cdist N g i)"
  by (auto simp: cdist_def cnext_def split: if_splits)

lemma arc_inside:
  "h < N \<Longrightarrow> g < N \<Longrightarrow> i < N \<Longrightarrow> in_arc N g i h \<Longrightarrow> \<not> cdist N h g < cdist N h i"
  by (auto simp: in_arc_def cdist_def split: if_splits)

lemma arc_outside:
  "h < N \<Longrightarrow> g < N \<Longrightarrow> i < N \<Longrightarrow> i \<noteq> g \<Longrightarrow> \<not> in_arc N g i h \<Longrightarrow>
    cdist N h g < cdist N h i"
  by (auto simp: in_arc_def cdist_def split: if_splits)

lemma arc_fresh_gap:
  "i < N \<Longrightarrow> e < N \<Longrightarrow> i \<noteq> e \<Longrightarrow> cdist N (cnext N i) e < cdist N (cnext N i) i"
  by (auto simp: cdist_def cnext_def split: if_splits)

lemma arc_next_least:
  "i < N \<Longrightarrow> j < N \<Longrightarrow> j \<noteq> i \<Longrightarrow> cdist N i (cnext N i) \<le> cdist N i j"
  by (auto simp: cdist_def cnext_def split: if_splits)

lemma cdist_pos: "a < N \<Longrightarrow> b < N \<Longrightarrow> 0 < cdist N a b \<longleftrightarrow> a \<noteq> b"
  by (auto simp: cdist_def split: if_splits)

lemma repair_condition:
  fixes e index hash :: size_t
  assumes "unat e < N" "unat index < N" "unat hash < N" "e \<noteq> index"
  shows "((e < index \<and> (hash \<le> e \<or> hash > index)) \<or>
          (e > index \<and> (hash \<le> e \<and> hash > index)))
         \<longleftrightarrow> \<not> in_arc N (unat e) (unat index) (unat hash)"
proof -
  have "unat e \<noteq> unat index" using assms(4) by (simp add: word_unat_eq_iff)
  then show ?thesis
    using assms(1,2,3)
    by (auto simp: word_less_nat_alt word_le_nat_alt in_arc_def cdist_def split: if_splits)
qed

lemma erase_scan_scan:
  assumes ok: "table_ok k" and e: "e < capacity k" "buckets_m k ! e = None"
    and i: "unat i < capacity k" and m: "cdist (capacity k) (unat i) e = m"
  shows "\<exists>res. erase_scan k key i = Some (Inr res) \<and> scan_post k key (unat i) res \<and>
           find_impl k key i = Some (Inr (scan_find k res))"
  using i m
proof (induction m arbitrary: i)
  case 0
  then have "unat i = e" using e(1) by (auto simp: cdist_def split: if_splits)
  then have "erase_scan k key i = Some (Inr (k, None, 0, i))"
    using e ok 0(1) by (subst erase_scan.simps) (simp add: table_ok_length)
  moreover have "scan_post k key (unat i) (k, None, 0, i)"
    unfolding scan_post_def using \<open>unat i = e\<close> e probe_run_refl by blast
  moreover have "find_impl k key i = Some (Inr (scan_find k (k, None, 0, i)))"
    using \<open>unat i = e\<close> e ok 0(1)
    by (subst find_impl.simps) (simp add: table_ok_length scan_find_def)
  ultimately show ?case by blast
next
  case (Suc m)
  let ?N = "capacity k"
  have len: "length (buckets_m k) = ?N" using ok by (rule table_ok_length)
  show ?case
  proof (cases "buckets_m k ! unat i")
    case None
    then have "erase_scan k key i = Some (Inr (k, None, 0, i))"
      using Suc.prems(1) len by (subst erase_scan.simps) simp
    moreover have "scan_post k key (unat i) (k, None, 0, i)"
      unfolding scan_post_def using None Suc.prems(1) probe_run_refl by blast
    moreover have "find_impl k key i = Some (Inr (scan_find k (k, None, 0, i)))"
      using None Suc.prems(1) len by (subst find_impl.simps) (simp add: scan_find_def)
    ultimately show ?thesis by blast
  next
    case (Some w)
    show ?thesis
    proof (cases "equal_m k key (extract_m k w)")
      case True
      then have "erase_scan k key i = Some (Inr (erased k i, Some i, 1, index_add k i 1))"
        using Some Suc.prems(1) len by (subst erase_scan.simps) (simp add: erased_def)
      moreover have "scan_post k key (unat i) (erased k i, Some i, 1, index_add k i 1)"
        unfolding scan_post_def using Some True Suc.prems(1) probe_run_refl by blast
      moreover have "find_impl k key i =
          Some (Inr (scan_find k (erased k i, Some i, 1, index_add k i 1)))"
        using Some True Suc.prems(1) len by (subst find_impl.simps) (simp add: scan_find_def)
      ultimately show ?thesis by blast
    next
      case False
      have ne: "unat i \<noteq> e" using Some e(2) by auto
      let ?i' = "index_add k i 1"
      have i': "unat ?i' = cnext ?N (unat i)"
        using ok Suc.prems(1) by (rule table_ok_index_add)
      then have i'less: "unat ?i' < ?N" using Suc.prems(1) by (simp add: cnext_less)
      have "cdist ?N (unat ?i') e = m"
        using cdist_cnext[OF Suc.prems(1) e(1) ne] Suc.prems(2) i' by simp
      from Suc.IH[OF i'less this] obtain res where
        r: "erase_scan k key ?i' = Some (Inr res)" "scan_post k key (unat ?i') res"
          "find_impl k key ?i' = Some (Inr (scan_find k res))" by blast
      have step: "\<And>t. t < ?N \<Longrightarrow> t \<noteq> unat i \<Longrightarrow> probe_run (buckets_m k) (unat ?i') t (no_match k key)
          \<Longrightarrow> probe_run (buckets_m k) (unat i) t (no_match k key)"
        using probe_run_step[of "unat i" "buckets_m k" _ w "no_match k key"] Some False
          Suc.prems(1) len i' by (simp add: no_match_def)
      have "scan_post k key (unat i) res"
      proof -
        from r(2) consider
          (absent) index where "res = (k, None, 0, index)" "unat index < ?N"
            "buckets_m k ! unat index = None"
            "probe_run (buckets_m k) (unat ?i') (unat index) (no_match k key)"
          | (found) g w' where "res = (erased k g, Some g, 1, index_add k g 1)" "unat g < ?N"
            "buckets_m k ! unat g = Some w'" "equal_m k key (extract_m k w')"
            "probe_run (buckets_m k) (unat ?i') (unat g) (no_match k key)"
          unfolding scan_post_def by blast
        then show ?thesis
        proof cases
          case absent
          then have "unat index \<noteq> unat i" using Some by auto
          with absent step[of "unat index"] show ?thesis unfolding scan_post_def by blast
        next
          case found
          then have "unat g \<noteq> unat i" using Some False by auto
          with found step[of "unat g"] show ?thesis unfolding scan_post_def by blast
        qed
      qed
      moreover have "erase_scan k key i = Some (Inr res)"
        using Some False Suc.prems(1) len r(1) by (subst erase_scan.simps) simp
      moreover have "find_impl k key i = Some (Inr (scan_find k res))"
        using Some False Suc.prems(1) len r(3) by (subst find_impl.simps) simp
      ultimately show ?thesis by blast
    qed
  qed
qed

lemma erase_scan_total:
  assumes "table_ok k"
  shows "\<exists>res. erase_scan k key (index_from_key k key) = Some (Inr res) \<and>
           scan_post k key (unat (index_from_key k key)) res \<and>
           find_key k key = Some (Inr (scan_find k res))"
proof -
  from table_ok_empty_slot[OF assms(1)] obtain e where "e < capacity k" "buckets_m k ! e = None"
    by blast
  then show ?thesis
    unfolding find_key_def
    using erase_scan_scan[OF assms(1) _ _ table_ok_index_from_key_less[OF assms]] by blast
qed

section \<open>The invariant of the repair loop\<close>

lemma gap_runD:
  assumes "gap_run k g i" "j < length (buckets_m k)" "buckets_m k ! j = Some v"
  shows "\<And>s. s < length (buckets_m k) \<Longrightarrow>
           cdist (length (buckets_m k)) (ideal k v) s < cdist (length (buckets_m k)) (ideal k v) j
           \<Longrightarrow> s \<noteq> g \<Longrightarrow> buckets_m k ! s \<noteq> None"
    and "cdist (length (buckets_m k)) (ideal k v) g < cdist (length (buckets_m k)) (ideal k v) j
           \<Longrightarrow> cdist (length (buckets_m k)) g i \<le> cdist (length (buckets_m k)) g j"
  using assms unfolding gap_run_def by (auto split: option.splits)

lemma gap_runI:
  assumes "\<And>j v s. j < length (buckets_m k) \<Longrightarrow> buckets_m k ! j = Some v \<Longrightarrow>
             s < length (buckets_m k) \<Longrightarrow>
             cdist (length (buckets_m k)) (ideal k v) s < cdist (length (buckets_m k)) (ideal k v) j
             \<Longrightarrow> s \<noteq> g \<Longrightarrow> buckets_m k ! s \<noteq> None"
    and "\<And>j v. j < length (buckets_m k) \<Longrightarrow> buckets_m k ! j = Some v \<Longrightarrow>
           cdist (length (buckets_m k)) (ideal k v) g < cdist (length (buckets_m k)) (ideal k v) j
           \<Longrightarrow> cdist (length (buckets_m k)) g i \<le> cdist (length (buckets_m k)) g j"
  shows "gap_run k g i"
  unfolding gap_run_def using assms by (auto split: option.splits)

lemma probe_invI:
  assumes "\<And>j v s. j < length (buckets_m k) \<Longrightarrow> buckets_m k ! j = Some v \<Longrightarrow>
             s < length (buckets_m k) \<Longrightarrow>
             cdist (length (buckets_m k)) (ideal k v) s < cdist (length (buckets_m k)) (ideal k v) j
             \<Longrightarrow> buckets_m k ! s \<noteq> None"
  shows "probe_inv k"
  unfolding probe_inv_def probe_run_def
proof (intro allI impI)
  fix j assume j: "j < length (buckets_m k)"
  show "case buckets_m k ! j of None \<Rightarrow> True
        | Some v \<Rightarrow> \<forall>s<length (buckets_m k).
            cdist (length (buckets_m k)) (ideal k v) s < cdist (length (buckets_m k)) (ideal k v) j
            \<longrightarrow> (case buckets_m k ! s of None \<Rightarrow> False | Some w \<Rightarrow> any_entry w)"
  proof (cases "buckets_m k ! j")
    case None
    then show ?thesis by simp
  next
    case (Some v)
    have "\<And>s. s < length (buckets_m k) \<Longrightarrow>
            cdist (length (buckets_m k)) (ideal k v) s < cdist (length (buckets_m k)) (ideal k v) j
            \<Longrightarrow> (case buckets_m k ! s of None \<Rightarrow> False | Some w \<Rightarrow> any_entry w)"
      using assms[OF j Some] by (fastforce simp: any_entry_def split: option.splits)
    then show ?thesis using Some by simp
  qed
qed

lemma probe_invD:
  assumes "probe_inv k" "j < length (buckets_m k)" "buckets_m k ! j = Some v"
    "s < length (buckets_m k)"
    "cdist (length (buckets_m k)) (ideal k v) s < cdist (length (buckets_m k)) (ideal k v) j"
  shows "buckets_m k ! s \<noteq> None"
proof -
  have "probe_run (buckets_m k) (ideal k v) j any_entry"
    using assms(1,2,3) unfolding probe_inv_def by (auto split: option.splits)
  from probe_run_nth[OF this assms(4,5)] show ?thesis by auto
qed

lemma repair_exit:
  assumes ok: "table_ok k" and inv: "repair_inv k g i e" and stop: "buckets_m k ! i = None"
  shows "probe_inv k"
proof (rule probe_invI)
  let ?N = "length (buckets_m k)"
  fix j v s
  assume j: "j < ?N" "buckets_m k ! j = Some v" and s: "s < ?N"
    "cdist ?N (ideal k v) s < cdist ?N (ideal k v) j"
  have b: "g < ?N" "i < ?N" "e < ?N" "cdist ?N i e < cdist ?N i g" and gr: "gap_run k g i"
    using inv by (simp_all add: repair_inv_def)
  have h: "ideal k v < ?N" using ideal_less[OF ok] table_ok_length[OF ok] by simp
  show "buckets_m k ! s \<noteq> None"
  proof (cases "s = g")
    case False
    then show ?thesis using gap_runD(1)[OF gr j s] by simp
  next
    case True
    then have "cdist ?N g i \<le> cdist ?N g j" using gap_runD(2)[OF gr j] s(2) by simp
    moreover have "j \<noteq> i" using j(2) stop by auto
    then have "cdist ?N g i \<noteq> cdist ?N g j" using cdist_inj[OF b(1) j(1) b(2)] by auto
    ultimately have "cdist ?N g i < cdist ?N g j" by simp
    then have "cdist ?N (ideal k v) i < cdist ?N (ideal k v) j"
      using arc_exit[OF h b(1) b(2) j(1)] s(2) True by simp
    moreover have "i \<noteq> g" using b(4) by (auto simp: cdist_self)
    ultimately have "buckets_m k ! i \<noteq> None" using gap_runD(1)[OF gr j b(2)] by simp
    then show ?thesis using stop by simp
  qed
qed

lemma repair_keep:
  assumes ok: "table_ok k" and inv: "repair_inv k g i e" and v: "buckets_m k ! i = Some v"
    and arc: "in_arc (length (buckets_m k)) g i (ideal k v)"
  shows "repair_inv k g (cnext (length (buckets_m k)) i) e"
proof -
  let ?N = "length (buckets_m k)"
  have b: "g < ?N" "i < ?N" "e < ?N" "buckets_m k ! g = None" "buckets_m k ! e = None"
    "cdist ?N i e < cdist ?N i g" and gr: "gap_run k g i"
    using inv by (simp_all add: repair_inv_def)
  have ie: "i \<noteq> e" using v b(5) by auto
  have adv: "cnext ?N i \<noteq> g" "cdist ?N (cnext ?N i) e < cdist ?N (cnext ?N i) g"
    using arc_advance[OF b(2) b(1) b(3) b(6) ie] by simp_all
  have nd: "cdist ?N g (cnext ?N i) = Suc (cdist ?N g i)"
    using arc_next_dist[OF b(2) b(1) adv(1)] .
  have "gap_run k g (cnext ?N i)"
  proof (rule gap_runI)
    fix j w s
    assume "j < ?N" "buckets_m k ! j = Some w" "s < ?N"
      "cdist ?N (ideal k w) s < cdist ?N (ideal k w) j" "s \<noteq> g"
    then show "buckets_m k ! s \<noteq> None" using gap_runD(1)[OF gr] by blast
  next
    fix j w
    assume j: "j < ?N" "buckets_m k ! j = Some w"
      "cdist ?N (ideal k w) g < cdist ?N (ideal k w) j"
    have h: "ideal k w < ?N" using ideal_less[OF ok] table_ok_length[OF ok] by simp
    have le: "cdist ?N g i \<le> cdist ?N g j" using gap_runD(2)[OF gr j(1,2)] j(3) by simp
    have "j \<noteq> i"
    proof
      assume "j = i"
      then have "w = v" using j(2) v by simp
      then show False using arc_inside[OF h b(1) b(2)] arc j(3) \<open>j = i\<close> by simp
    qed
    then have "cdist ?N g i \<noteq> cdist ?N g j" using cdist_inj[OF b(1) j(1) b(2)] by auto
    then show "cdist ?N g (cnext ?N i) \<le> cdist ?N g j" using le nd by simp
  qed
  then show ?thesis
    unfolding repair_inv_def using b adv(2) cnext_less[OF b(2)] by simp
qed

lemma moved_params: "same_params (moved k g i v) k"
  by (simp add: same_params_def moved_def)

lemma moved_length: "length (buckets_m (moved k g i v)) = length (buckets_m k)"
  by (simp add: moved_def)

lemma moved_nth:
  assumes "unat g < length (buckets_m k)" "unat i < length (buckets_m k)" "unat g \<noteq> unat i"
  shows "buckets_m (moved k g i v) ! s =
           (if s = unat i then None else if s = unat g then Some v else buckets_m k ! s)"
  using assms by (simp add: moved_def nth_list_update)

lemma repair_move:
  assumes ok: "table_ok k" and inv: "repair_inv k (unat g) (unat i) e"
    and v: "buckets_m k ! unat i = Some v"
    and arc: "\<not> in_arc (length (buckets_m k)) (unat g) (unat i) (ideal k v)"
  shows "repair_inv (moved k g i v) (unat i) (cnext (length (buckets_m k)) (unat i)) e"
proof -
  let ?N = "length (buckets_m k)"
  let ?k' = "moved k g i v"
  have b: "unat g < ?N" "unat i < ?N" "e < ?N" "buckets_m k ! unat g = None"
    "buckets_m k ! e = None" "cdist ?N (unat i) e < cdist ?N (unat i) (unat g)"
    and gr: "gap_run k (unat g) (unat i)"
    using inv by (simp_all add: repair_inv_def)
  have ig: "unat i \<noteq> unat g" using v b(4) by auto
  have ie: "unat i \<noteq> e" using v b(5) by auto
  have ge: "unat g \<noteq> e" using b(6) by (auto simp: cdist_self)
  have nth: "\<And>s. buckets_m ?k' ! s =
           (if s = unat i then None else if s = unat g then Some v else buckets_m k ! s)"
    using moved_nth[OF b(1,2)] ig by simp
  have id: "\<And>w. ideal ?k' w = ideal k w" by (rule same_params_ideal[OF moved_params])
  have hv: "ideal k v < ?N" using ideal_less[OF ok] table_ok_length[OF ok] by simp
  have out: "cdist ?N (ideal k v) (unat g) < cdist ?N (ideal k v) (unat i)"
    using arc_outside[OF hv b(1) b(2) ig arc] .
  have "gap_run ?k' (unat i) (cnext ?N (unat i))"
  proof (rule gap_runI)
    fix j w s
    assume j: "j < length (buckets_m ?k')" "buckets_m ?k' ! j = Some w"
      and s: "s < length (buckets_m ?k')"
      "cdist (length (buckets_m ?k')) (ideal ?k' w) s
         < cdist (length (buckets_m ?k')) (ideal ?k' w) j" "s \<noteq> unat i"
    have j': "j < ?N" and s': "s < ?N" "cdist ?N (ideal k w) s < cdist ?N (ideal k w) j"
      using j(1) s(1,2) by (simp_all add: moved_length id)
    have ji: "j \<noteq> unat i" using j(2) nth by auto
    show "buckets_m ?k' ! s \<noteq> None"
    proof (cases "s = unat g")
      case True
      then show ?thesis using nth ig by simp
    next
      case False
      have "buckets_m k ! s \<noteq> None"
      proof (cases "j = unat g")
        case True
        then have "w = v" using j(2) nth ig by simp
        then have "cdist ?N (ideal k v) s < cdist ?N (ideal k v) (unat i)"
          using s'(2) True out by simp
        then show ?thesis using gap_runD(1)[OF gr b(2) v s'(1)] False by simp
      next
        case False
        then have "buckets_m k ! j = Some w" using j(2) nth ji by simp
        then show ?thesis using gap_runD(1)[OF gr j' _ s'(1)] s'(2) \<open>s \<noteq> unat g\<close> by simp
      qed
      then show ?thesis using nth s(3) False by simp
    qed
  next
    fix j w
    assume j: "j < length (buckets_m ?k')" "buckets_m ?k' ! j = Some w"
    have j': "j < ?N" using j(1) by (simp add: moved_length)
    have ji: "j \<noteq> unat i" using j(2) nth by auto
    show "cdist (length (buckets_m ?k')) (unat i) (cnext ?N (unat i))
            \<le> cdist (length (buckets_m ?k')) (unat i) j"
      using arc_next_least[OF b(2) j' ji] by (simp add: moved_length)
  qed
  moreover have "cdist ?N (cnext ?N (unat i)) e < cdist ?N (cnext ?N (unat i)) (unat i)"
    using arc_fresh_gap[OF b(2) b(3) ie] .
  moreover have "buckets_m ?k' ! unat i = None" "buckets_m ?k' ! e = None"
    using nth ie ge b(5) by simp_all
  ultimately show ?thesis
    unfolding repair_inv_def using b(2,3) cnext_less[OF b(2)] by (simp add: moved_length)
qed

section \<open>Destroying and moving an entry\<close>

lemma table_ok_update:
  assumes "table_ok k" "same_params k' k" "length (buckets_m k') = length (buckets_m k)"
    "unat (size_m k') = occupied_count (buckets_m k')" "size_m k' \<le> max_size_m k"
  shows "table_ok k'"
proof -
  have "bucket_count_m k' = bucket_count_m k" "min_load_m k' = min_load_m k"
    "max_load_m k' = max_load_m k" "min_size_m k' = min_size_m k" "max_size_m k' = max_size_m k"
    using assms(2) by (simp_all add: same_params_def)
  then show ?thesis using assms(1,3,4,5) unfolding table_ok_def by metis
qed

lemma table_ok_size_max: "table_ok k \<Longrightarrow> size_m k \<le> max_size_m k"
  unfolding table_ok_def by blast

lemma moved_table_ok:
  assumes ok: "table_ok k" and g: "unat g < length (buckets_m k)" "buckets_m k ! unat g = None"
    and i: "unat i < length (buckets_m k)" "buckets_m k ! unat i = Some v"
  shows "table_ok (moved k g i v)"
proof -
  let ?bs = "buckets_m k"
  have ne: "unat g \<noteq> unat i" using g(2) i(2) by auto
  have "occupied_count (?bs[unat g := Some v]) = Suc (occupied_count ?bs)"
    using g by (rule occupied_count_set_Some)
  moreover have "Suc (occupied_count (?bs[unat g := Some v, unat i := None]))
      = occupied_count (?bs[unat g := Some v])"
    using i ne by (intro occupied_count_set_None[of _ _ v]) simp_all
  ultimately have "occupied_count (?bs[unat g := Some v, unat i := None]) = occupied_count ?bs"
    by simp
  then have "unat (size_m (moved k g i v)) = occupied_count (buckets_m (moved k g i v))"
    using table_ok_size[OF ok] by (simp add: moved_def)
  moreover have "size_m (moved k g i v) \<le> max_size_m k"
    using table_ok_size_max[OF ok] by (simp add: moved_def)
  ultimately show ?thesis
    using table_ok_update[OF ok moved_params moved_length] by blast
qed

lemma moved_entries:
  assumes g: "unat g < length (buckets_m k)" "buckets_m k ! unat g = None"
    and i: "unat i < length (buckets_m k)" "buckets_m k ! unat i = Some v"
  shows "entries (buckets_m (moved k g i v)) = entries (buckets_m k)"
proof -
  have ne: "unat g \<noteq> unat i" using g(2) i(2) by auto
  have nth: "\<And>s. buckets_m (moved k g i v) ! s =
           (if s = unat i then None else if s = unat g then Some v else buckets_m k ! s)"
    using moved_nth[OF g(1) i(1) ne] .
  show ?thesis
  proof (rule set_eqI)
    fix x
    show "x \<in> entries (buckets_m (moved k g i v)) \<longleftrightarrow> x \<in> entries (buckets_m k)"
    proof
      assume "x \<in> entries (buckets_m (moved k g i v))"
      then obtain j where j: "j < length (buckets_m k)" "buckets_m (moved k g i v) ! j = Some x"
        by (auto simp: entries_nth moved_length)
      then have "(j = unat g \<and> x = v) \<or> buckets_m k ! j = Some x"
        using nth[of j] by (auto split: if_splits)
      then show "x \<in> entries (buckets_m k)"
        using i j(1) unfolding entries_nth by blast
    next
      assume "x \<in> entries (buckets_m k)"
      then obtain j where j: "j < length (buckets_m k)" "buckets_m k ! j = Some x"
        by (auto simp: entries_nth)
      show "x \<in> entries (buckets_m (moved k g i v))"
      proof (cases "j = unat i")
        case True
        then have "x = v" using j(2) i(2) by simp
        then have "buckets_m (moved k g i v) ! unat g = Some x" using nth[of "unat g"] ne by simp
        then show ?thesis using g(1) unfolding entries_nth moved_length by blast
      next
        case False
        then have "j \<noteq> unat g" using j(2) g(2) by auto
        then have "buckets_m (moved k g i v) ! j = Some x" using nth[of j] False j(2) by simp
        then show ?thesis using j(1) unfolding entries_nth moved_length by blast
      qed
    qed
  qed
qed

lemma unique_keysD:
  assumes "unique_keys k" "a < length (buckets_m k)" "b < length (buckets_m k)"
    "buckets_m k ! a = Some x" "buckets_m k ! b = Some y" "equiv_entries k x y"
  shows "a = b"
  using assms unfolding unique_keys_def unique_slots_def by (auto split: option.splits)

lemma unique_keysI:
  assumes "\<And>a b x y. a < length (buckets_m k) \<Longrightarrow> b < length (buckets_m k) \<Longrightarrow>
    buckets_m k ! a = Some x \<Longrightarrow> buckets_m k ! b = Some y \<Longrightarrow> equiv_entries k x y \<Longrightarrow> a = b"
  shows "unique_keys k"
  unfolding unique_keys_def unique_slots_def
proof (intro allI impI)
  fix a b assume ab: "a < length (buckets_m k)" "b < length (buckets_m k)"
  show "case buckets_m k ! a of None \<Rightarrow> True
        | Some v \<Rightarrow> (case buckets_m k ! b of None \<Rightarrow> True
                     | Some w \<Rightarrow> equiv_entries k v w \<longrightarrow> a = b)"
    using assms[OF ab] by (auto split: option.splits)
qed

lemma moved_unique:
  assumes u: "unique_keys k"
    and g: "unat g < length (buckets_m k)" "buckets_m k ! unat g = None"
    and i: "unat i < length (buckets_m k)" "buckets_m k ! unat i = Some v"
  shows "unique_keys (moved k g i v)"
proof (rule unique_keysI)
  let ?k' = "moved k g i v"
  have ne: "unat g \<noteq> unat i" using g(2) i(2) by auto
  have nth: "\<And>s. buckets_m ?k' ! s =
           (if s = unat i then None else if s = unat g then Some v else buckets_m k ! s)"
    using moved_nth[OF g(1) i(1) ne] .
  have eq: "equiv_entries ?k' = equiv_entries k" by (rule same_params_equiv[OF moved_params])
  fix a b x y
  assume a: "a < length (buckets_m ?k')" "buckets_m ?k' ! a = Some x"
    and b: "b < length (buckets_m ?k')" "buckets_m ?k' ! b = Some y"
    and e: "equiv_entries ?k' x y"
  let ?p = "\<lambda>s. if s = unat g then unat i else s"
  have pa: "?p a < length (buckets_m k)" "buckets_m k ! ?p a = Some x" "a \<noteq> unat i"
    using a i nth[of a] by (auto simp: moved_length split: if_splits)
  have pb: "?p b < length (buckets_m k)" "buckets_m k ! ?p b = Some y" "b \<noteq> unat i"
    using b i nth[of b] by (auto simp: moved_length split: if_splits)
  have "?p a = ?p b" using unique_keysD[OF u pa(1) pb(1) pa(2) pb(2)] e eq by simp
  then show "a = b" using pa(3) pb(3) by (auto split: if_splits)
qed

lemma erased_params:
  "hash_m (erased k g) = hash_m k \<and> equal_m (erased k g) = equal_m k \<and>
   extract_m (erased k g) = extract_m k \<and> mapped_extract_m (erased k g) = mapped_extract_m k \<and>
   min_load_m (erased k g) = min_load_m k \<and> max_load_m (erased k g) = max_load_m k \<and>
   bucket_count_m (erased k g) = bucket_count_m k \<and>
   min_size_m (erased k g) = min_size_m k \<and> max_size_m (erased k g) = max_size_m k"
  by (simp add: erased_def)

lemma erased_same_params: "same_params (erased k g) k"
  using erased_params[of k g] by (simp add: same_params_def)

lemma erased_table_ok:
  assumes ok: "table_ok k" and g: "unat g < length (buckets_m k)" "buckets_m k ! unat g = Some w"
  shows "table_ok (erased k g)" and "unat (size_m (erased k g)) = unat (size_m k) - 1"
    and "0 < unat (size_m k)"
proof -
  let ?bs = "buckets_m k"
  have oc: "Suc (occupied_count (?bs[unat g := None])) = occupied_count ?bs"
    using g by (rule occupied_count_set_None)
  then have pos: "1 \<le> unat (size_m k)" using table_ok_size[OF ok] by simp
  then show "0 < unat (size_m k)" by simp
  have "(1::size_t) \<le> size_m k" using pos by (simp add: word_le_nat_alt)
  then have sub: "unat (size_m k - 1) = unat (size_m k) - 1" by (simp add: unat_sub)
  then show "unat (size_m (erased k g)) = unat (size_m k) - 1" by (simp add: erased_def)
  have "unat (size_m (erased k g)) = occupied_count (buckets_m (erased k g))"
    using sub oc table_ok_size[OF ok] by (simp add: erased_def)
  moreover have "size_m (erased k g) \<le> max_size_m k"
    using sub table_ok_size_le[OF ok] by (simp add: word_le_nat_alt erased_def)
  moreover have "length (buckets_m (erased k g)) = length (buckets_m k)"
    by (simp add: erased_def)
  ultimately show "table_ok (erased k g)"
    using table_ok_update[OF ok erased_same_params] by blast
qed

lemma erased_entries:
  assumes "x \<in> entries (buckets_m (erased k g))"
  shows "\<exists>j<length (buckets_m k). j \<noteq> unat g \<and> buckets_m k ! j = Some x"
proof -
  from assms obtain j where j: "j < length (buckets_m k)"
    "(buckets_m k)[unat g := None] ! j = Some x"
    by (auto simp: entries_nth erased_def)
  then have "j \<noteq> unat g" by auto
  then show ?thesis using j by auto
qed

lemma erased_unique:
  assumes u: "unique_keys k"
  shows "unique_keys (erased k g)"
proof (rule unique_keysI)
  let ?k' = "erased k g"
  have eq: "equiv_entries ?k' = equiv_entries k" by (rule same_params_equiv[OF erased_same_params])
  fix a b x y
  assume a: "a < length (buckets_m ?k')" "buckets_m ?k' ! a = Some x"
    and b: "b < length (buckets_m ?k')" "buckets_m ?k' ! b = Some y"
    and e: "equiv_entries ?k' x y"
  have "a \<noteq> unat g" "b \<noteq> unat g" using a b by (auto simp: erased_def)
  then have "buckets_m k ! a = Some x" "buckets_m k ! b = Some y"
    using a(2) b(2) by (simp_all add: erased_def)
  then show "a = b" using unique_keysD[OF u] a(1) b(1) e eq by (simp add: erased_def)
qed

section \<open>The repair loop\<close>

lemma repair_stop:
  assumes "unat index < length (buckets_m k)" "buckets_m k ! unat index = None"
  shows "erase_repair k erased_index index = Some (Inr k)"
  using assms by (subst erase_repair.simps) simp

lemma repair_step:
  assumes ok: "table_ok k" and e: "unat e < length (buckets_m k)"
    and i: "unat index < length (buckets_m k)" "buckets_m k ! unat index = Some v"
    and ne: "e \<noteq> index"
  shows "erase_repair k (Some e) index =
          (if in_arc (length (buckets_m k)) (unat e) (unat index) (ideal k v)
           then erase_repair k (Some e) (index_add k index 1)
           else erase_repair (moved k e index v) (Some index) (index_add k index 1))"
proof -
  let ?hash = "index_from_key k (extract_m k v)"
  have h: "unat ?hash < length (buckets_m k)"
    using table_ok_index_from_key_less[OF ok] table_ok_length[OF ok] by simp
  have id: "ideal k v = unat ?hash" by (simp add: ideal_def index_from_value_def)
  have c: "((e < index \<and> (?hash \<le> e \<or> ?hash > index)) \<or>
            (e > index \<and> (?hash \<le> e \<and> ?hash > index)))
           \<longleftrightarrow> \<not> in_arc (length (buckets_m k)) (unat e) (unat index) (ideal k v)"
    unfolding id using e i(1) h ne by (rule repair_condition)
  show ?thesis
    by (subst erase_repair.simps) (use e i c in \<open>simp add: Let_def moved_def\<close>)
qed

lemma erase_repair_ok:
  assumes "table_ok k" "repair_inv k (unat e) (unat index) e0"
    "cdist (length (buckets_m k)) (unat index) e0 = m"
  shows "\<exists>k'. erase_repair k (Some e) index = Some (Inr k') \<and> table_ok k' \<and> probe_inv k' \<and>
           same_params k' k \<and> size_m k' = size_m k \<and>
           entries (buckets_m k') = entries (buckets_m k) \<and>
           (unique_keys k \<longrightarrow> unique_keys k')"
  using assms
proof (induction m arbitrary: k e index)
  case 0
  have b: "unat index < length (buckets_m k)" "e0 < length (buckets_m k)"
    "buckets_m k ! e0 = None"
    using 0(2) by (simp_all add: repair_inv_def)
  have "unat index = e0" using 0(3) b(1,2) by (auto simp: cdist_def split: if_splits)
  then have stop: "buckets_m k ! unat index = None" using b(3) by simp
  have "erase_repair k (Some e) index = Some (Inr k)" using b(1) stop by (rule repair_stop)
  moreover have "probe_inv k" using 0(1,2) stop by (rule repair_exit)
  ultimately show ?case using 0(1) same_params_refl by blast
next
  case (Suc m)
  let ?N = "length (buckets_m k)"
  have b: "unat e < ?N" "unat index < ?N" "e0 < ?N" "buckets_m k ! unat e = None"
    "buckets_m k ! e0 = None"
    using Suc.prems(2) by (simp_all add: repair_inv_def)
  show ?case
  proof (cases "buckets_m k ! unat index")
    case None
    have "erase_repair k (Some e) index = Some (Inr k)" using b(2) None by (rule repair_stop)
    moreover have "probe_inv k" using Suc.prems(1,2) None by (rule repair_exit)
    ultimately show ?thesis using Suc.prems(1) same_params_refl by blast
  next
    case (Some v)
    have ne: "e \<noteq> index" using Some b(4) by auto
    have ie0: "unat index \<noteq> e0" using Some b(5) by auto
    let ?i' = "index_add k index 1"
    have len: "?N = capacity k" using table_ok_length[OF Suc.prems(1)] .
    have i': "unat ?i' = cnext ?N (unat index)"
      using table_ok_index_add[OF Suc.prems(1)] b(2) len by simp
    have m': "cdist ?N (cnext ?N (unat index)) e0 = m"
      using cdist_cnext[OF b(2) b(3) ie0] Suc.prems(3) by simp
    have step: "erase_repair k (Some e) index =
          (if in_arc ?N (unat e) (unat index) (ideal k v)
           then erase_repair k (Some e) ?i'
           else erase_repair (moved k e index v) (Some index) ?i')"
      using Suc.prems(1) b(1) b(2) Some ne by (rule repair_step)
    show ?thesis
    proof (cases "in_arc ?N (unat e) (unat index) (ideal k v)")
      case True
      have inv': "repair_inv k (unat e) (unat ?i') e0"
        using repair_keep[OF Suc.prems(1,2) Some True] i' by simp
      have "cdist ?N (unat ?i') e0 = m" using m' i' by simp
      from Suc.IH[OF Suc.prems(1) inv' this] show ?thesis using step True by simp
    next
      case False
      let ?k1 = "moved k e index v"
      have ok1: "table_ok ?k1" using Suc.prems(1) b(1,4) b(2) Some by (rule moved_table_ok)
      have inv1: "repair_inv ?k1 (unat index) (unat ?i') e0"
        using repair_move[OF Suc.prems(1,2) Some False] i' by simp
      have "cdist (length (buckets_m ?k1)) (unat ?i') e0 = m"
        using m' i' by (simp add: moved_length)
      from Suc.IH[OF ok1 inv1 this] obtain k' where
        k': "erase_repair ?k1 (Some index) ?i' = Some (Inr k')" "table_ok k'" "probe_inv k'"
          "same_params k' ?k1" "size_m k' = size_m ?k1"
          "entries (buckets_m k') = entries (buckets_m ?k1)"
          "unique_keys ?k1 \<longrightarrow> unique_keys k'"
        by blast
      have "erase_repair k (Some e) index = Some (Inr k')" using step False k'(1) by simp
      moreover have "same_params k' k" using same_params_trans[OF k'(4) moved_params] .
      moreover have "size_m k' = size_m k" using k'(5) by (simp add: moved_def)
      moreover have "entries (buckets_m k') = entries (buckets_m k)"
        using k'(6) moved_entries[OF b(1,4) b(2) Some] by simp
      moreover have "unique_keys k \<longrightarrow> unique_keys k'"
        using k'(7) moved_unique[OF _ b(1,4) b(2) Some] by blast
      ultimately show ?thesis using k'(2,3) by blast
    qed
  qed
qed

lemma repair_start:
  assumes ok: "table_ok k" and pi: "probe_inv k"
    and g: "unat g < length (buckets_m k)" "buckets_m k ! unat g = Some w"
  shows "\<exists>e0. repair_inv (erased k g) (unat g) (unat (index_add k g 1)) e0"
proof -
  let ?N = "length (buckets_m k)"
  let ?k1 = "erased k g"
  have len: "?N = capacity k" using table_ok_length[OF ok] .
  from table_ok_empty_slot[OF ok] obtain e0 where e0: "e0 < ?N" "buckets_m k ! e0 = None"
    using len by auto
  have ge: "unat g \<noteq> e0" using g(2) e0(2) by auto
  have i: "unat (index_add k g 1) = cnext ?N (unat g)"
    using table_ok_index_add[OF ok] g(1) len by simp
  have len1: "length (buckets_m ?k1) = ?N" by (simp add: erased_def)
  have nth: "\<And>s. s < ?N \<Longrightarrow> buckets_m ?k1 ! s = (if s = unat g then None else buckets_m k ! s)"
    by (simp add: erased_def nth_list_update)
  have id: "\<And>x. ideal ?k1 x = ideal k x" by (rule same_params_ideal[OF erased_same_params])
  have "gap_run ?k1 (unat g) (cnext ?N (unat g))"
  proof (rule gap_runI)
    fix j x s
    assume j: "j < length (buckets_m ?k1)" "buckets_m ?k1 ! j = Some x"
      and s: "s < length (buckets_m ?k1)"
        "cdist (length (buckets_m ?k1)) (ideal ?k1 x) s
          < cdist (length (buckets_m ?k1)) (ideal ?k1 x) j" "s \<noteq> unat g"
    have j': "j < ?N" "buckets_m k ! j = Some x"
      using j nth[of j] by (auto simp: len1 split: if_splits)
    have "buckets_m k ! s \<noteq> None"
      using probe_invD[OF pi j'] s(1,2) by (simp add: len1 id)
    then show "buckets_m ?k1 ! s \<noteq> None" using nth[of s] s(1,3) by (simp add: len1)
  next
    fix j x
    assume j: "j < length (buckets_m ?k1)" "buckets_m ?k1 ! j = Some x"
    have "j < ?N" "j \<noteq> unat g" using j nth[of j] by (auto simp: len1 split: if_splits)
    then show "cdist (length (buckets_m ?k1)) (unat g) (cnext ?N (unat g))
         \<le> cdist (length (buckets_m ?k1)) (unat g) j"
      using arc_next_least[OF g(1)] by (simp add: len1)
  qed
  moreover have "cdist ?N (cnext ?N (unat g)) e0 < cdist ?N (cnext ?N (unat g)) (unat g)"
    using arc_fresh_gap[OF g(1) e0(1) ge] .
  moreover have "buckets_m ?k1 ! unat g = None" "buckets_m ?k1 ! e0 = None"
    using nth[of "unat g"] nth[of e0] g(1) e0 by simp_all
  ultimately have "repair_inv ?k1 (unat g) (unat (index_add k g 1)) e0"
    unfolding repair_inv_def using g(1) e0(1) cnext_less[OF g(1)] i by (simp add: len1)
  then show ?thesis by blast
qed

section \<open>The whole of erase\<close>

lemma min_load_bound:
  assumes "p < 64"
  shows "unat (load_times min_load_default (2 ^ p)) = (10066330 * 2 ^ p) div 2 ^ 25"
proof -
  have "(10066330 * 2 ^ p) div 2 ^ 25 < (2::nat) ^ p"
    by (simp add: less_mult_imp_div_less)
  with pow2_less_64[OF assms] have "(10066330 * 2 ^ p) div 2 ^ 25 < (2::nat) ^ 64" by simp
  then show ?thesis
    using assms by (simp add: load_times_def min_load_default_def unat_of_nat unat_pow2)
qed

lemma pow2_div2: "0 < p \<Longrightarrow> p < 64 \<Longrightarrow> (2::size_t) ^ p div 2 = 2 ^ (p - 1)"
proof -
  assume p: "0 < p" "p < 64"
  have "unat ((2::size_t) ^ p div 2) = 2 ^ p div 2"
    using p(2) by (simp add: unat_div unat_pow2)
  also have "\<dots> = 2 ^ (p - 1)" using p(1) by (cases p) simp_all
  also have "\<dots> = unat ((2::size_t) ^ (p - 1))" using p(2) by (simp add: unat_pow2)
  finally show ?thesis by (simp add: word_unat_eq_iff)
qed

lemma shrink_ok:
  assumes ok: "table_ok k" and sh: "shrinks k"
  shows "\<exists>k'. rehash n k (bucket_count_m k div 2) = Some (Inr k') \<and> table_ok k' \<and>
           probe_inv k' \<and> bucket_count_m k' = bucket_count_m k div 2 \<and> same_functors k' k \<and>
           size_m k' = size_m k \<and> entries (buckets_m k') = entries (buckets_m k) \<and>
           (unique_keys k \<longrightarrow> unique_keys k')"
proof -
  from ok obtain p where p: "p < 64" "bucket_count_m k = 2 ^ p" "capacity k = 2 ^ p"
    by (rule table_ok_pow2)
  have s16: "16 < unat (size_m k)" using sh by (simp add: shrinks_def word_less_nat_alt)
  have smin: "unat (size_m k) < unat (min_size_m k)"
    using sh by (simp add: shrinks_def word_less_nat_alt)
  have "min_size_m k = load_times min_load_default (2 ^ p)"
    using ok p(2) unfolding table_ok_def by metis
  then have min: "unat (min_size_m k) = 10066330 * 2 ^ p div 2 ^ 25"
    using min_load_bound[OF p(1)] by simp
  have "p \<noteq> 0"
  proof
    assume "p = 0"
    then have "unat (min_size_m k) = 0" using min by simp
    then show False using smin by simp
  qed
  then obtain q where q: "p = Suc q" by (cases p) auto
  have q64: "q < 64" using p(1) q by simp
  have half: "bucket_count_m k div 2 = 2 ^ q" using pow2_div2[of p] p(1,2) q by simp
  have room: "unat (size_m k) \<le> 11744051 * 2 ^ q div 2 ^ 24"
    using smin min min_load_shrink[of q] q by simp
  from rehash_clean[OF ok q64 room, of n] show ?thesis unfolding half by blast
qed

lemma erase_eq:
  "erase n k key =
    (case erase_scan k key (index_from_key k key) of
       None \<Rightarrow> None
     | Some (Inl e) \<Rightarrow> Some (Inl e)
     | Some (Inr (k1, erased_index, erased_count, index)) \<Rightarrow>
         (case erase_repair k1 erased_index index of
            None \<Rightarrow> None
          | Some (Inl e) \<Rightarrow> Some (Inl e)
          | Some (Inr k2) \<Rightarrow>
              if shrinks k2
              then (case rehash n k2 (bucket_count_m k2 div 2) of
                      None \<Rightarrow> None
                    | Some (Inl e) \<Rightarrow> Some (Inl e)
                    | Some (Inr k3) \<Rightarrow> Some (Inr (k3, erased_count)))
              else Some (Inr (k2, erased_count))))"
  unfolding erase_def shrinks_def by (rule refl)

lemma same_params_shrinks: "same_params k' k \<Longrightarrow> size_m k' = size_m k \<Longrightarrow> shrinks k' = shrinks k"
  by (simp add: shrinks_def same_params_def)

lemma erase_ok:
  assumes ok: "table_ok k" and pi: "probe_inv k"
  shows "\<exists>k' c r. erase n k key = Some (Inr (k', c)) \<and> find_key k key = Some (Inr r) \<and>
           table_ok k' \<and> probe_inv k' \<and> same_functors k' k \<and>
           (unique_keys k \<longrightarrow> unique_keys k') \<and>
           (r = bucket_count_m k \<longrightarrow>
              c = 0 \<and> size_m k' = size_m k \<and>
              entries (buckets_m k') = entries (buckets_m k) \<and>
              (if shrinks k then bucket_count_m k' = bucket_count_m k div 2 else k' = k)) \<and>
           (r \<noteq> bucket_count_m k \<longrightarrow>
              c = 1 \<and> unat r < capacity k \<and>
              (\<exists>w. buckets_m k ! unat r = Some w \<and> equal_m k key (extract_m k w)) \<and>
              Suc (unat (size_m k')) = unat (size_m k) \<and>
              (\<forall>x\<in>entries (buckets_m k').
                  \<exists>j<length (buckets_m k). j \<noteq> unat r \<and> buckets_m k ! j = Some x))"
proof -
  let ?a = "index_from_key k key"
  have len: "length (buckets_m k) = capacity k" using ok by (rule table_ok_length)
  from erase_scan_total[OF ok, of key] obtain res where
    res: "erase_scan k key ?a = Some (Inr res)" "scan_post k key (unat ?a) res"
      "find_key k key = Some (Inr (scan_find k res))"
    by blast
  from res(2) consider
    (absent) index where "res = (k, None, 0, index)" "unat index < capacity k"
      "buckets_m k ! unat index = None"
    | (found) g w where "res = (erased k g, Some g, 1, index_add k g 1)" "unat g < capacity k"
      "buckets_m k ! unat g = Some w" "equal_m k key (extract_m k w)"
    unfolding scan_post_def by blast
  then show ?thesis
  proof cases
    case absent
    have r: "find_key k key = Some (Inr (bucket_count_m k))"
      using res(3) absent(1) by (simp add: scan_find_def)
    have rep: "erase_repair k None index = Some (Inr k)"
      using absent(2,3) len by (intro repair_stop) simp_all
    show ?thesis
    proof (cases "shrinks k")
      case False
      have "erase n k key = Some (Inr (k, 0))"
        using res(1) absent(1) rep False by (simp add: erase_eq del: rehash.simps)
      then show ?thesis using r ok pi same_functors_refl[of k] False by auto
    next
      case True
      from shrink_ok[OF ok True, of n] obtain k' where
        k': "rehash n k (bucket_count_m k div 2) = Some (Inr k')" "table_ok k'" "probe_inv k'"
          "bucket_count_m k' = bucket_count_m k div 2" "same_functors k' k"
          "size_m k' = size_m k" "entries (buckets_m k') = entries (buckets_m k)"
          "unique_keys k \<longrightarrow> unique_keys k'"
        by blast
      have "erase n k key = Some (Inr (k', 0))"
        using res(1) absent(1) rep True k'(1) by (simp add: erase_eq del: rehash.simps)
      then show ?thesis using r k'(2-8) True by auto
    qed
  next
    case found
    let ?k1 = "erased k g"
    have glen: "unat g < length (buckets_m k)" using found(2) len by simp
    have r: "find_key k key = Some (Inr g)"
      using res(3) found(1) by (simp add: scan_find_def)
    have gne: "g \<noteq> bucket_count_m k"
      using found(2) by (auto simp: capacity_def)
    have ok1: "table_ok ?k1" and sz1: "unat (size_m ?k1) = unat (size_m k) - 1"
      and pos: "0 < unat (size_m k)"
      using erased_table_ok[OF ok glen found(3)] by simp_all
    from repair_start[OF ok pi glen found(3)] obtain e0 where
      inv: "repair_inv ?k1 (unat g) (unat (index_add k g 1)) e0" by blast
    from erase_repair_ok[OF ok1 inv refl] obtain k2 where
      k2: "erase_repair ?k1 (Some g) (index_add k g 1) = Some (Inr k2)" "table_ok k2"
        "probe_inv k2" "same_params k2 ?k1" "size_m k2 = size_m ?k1"
        "entries (buckets_m k2) = entries (buckets_m ?k1)"
        "unique_keys ?k1 \<longrightarrow> unique_keys k2"
      by blast
    have sf2: "same_functors k2 k"
      using same_params_functors[OF same_params_trans[OF k2(4) erased_same_params]] .
    have u2: "unique_keys k \<longrightarrow> unique_keys k2" using k2(7) erased_unique[of k g] by blast
    have sz2: "Suc (unat (size_m k2)) = unat (size_m k)" using k2(5) sz1 pos by simp
    have ent2: "\<forall>x\<in>entries (buckets_m k2).
        \<exists>j<length (buckets_m k). j \<noteq> unat g \<and> buckets_m k ! j = Some x"
      using k2(6) erased_entries[of _ k g] by blast
    have w: "\<exists>w. buckets_m k ! unat g = Some w \<and> equal_m k key (extract_m k w)"
      using found(3,4) by blast
    show ?thesis
    proof (cases "shrinks k2")
      case False
      have "erase n k key = Some (Inr (k2, 1))"
        using res(1) found(1) k2(1) False by (simp add: erase_eq del: rehash.simps)
      then show ?thesis using r gne k2(2,3) sf2 u2 found(2) w sz2 ent2 by auto
    next
      case True
      from shrink_ok[OF k2(2) True, of n] obtain k' where
        k': "rehash n k2 (bucket_count_m k2 div 2) = Some (Inr k')" "table_ok k'" "probe_inv k'"
          "bucket_count_m k' = bucket_count_m k2 div 2" "same_functors k' k2"
          "size_m k' = size_m k2" "entries (buckets_m k') = entries (buckets_m k2)"
          "unique_keys k2 \<longrightarrow> unique_keys k'"
        by blast
      have "erase n k key = Some (Inr (k', 1))"
        using res(1) found(1) k2(1) True k'(1) by (simp add: erase_eq del: rehash.simps)
      moreover have "same_functors k' k" using same_functors_trans[OF k'(5) sf2] .
      moreover have "unique_keys k \<longrightarrow> unique_keys k'" using u2 k'(8) by blast
      moreover have "Suc (unat (size_m k')) = unat (size_m k)" using sz2 k'(6) by simp
      moreover have "\<forall>x\<in>entries (buckets_m k').
        \<exists>j<length (buckets_m k). j \<noteq> unat g \<and> buckets_m k ! j = Some x"
        using ent2 k'(7) by simp
      ultimately show ?thesis using r gne k'(2,3) found(2) w by auto
    qed
  qed
qed

lemma find_present:
  assumes ok: "table_ok k" and pi: "probe_inv k" and u: "unique_keys k"
    and caps: "capabilities_ok k"
    and j: "j < capacity k" "buckets_m k ! j = Some w" "equal_m k key (extract_m k w)"
  shows "\<exists>r. find_key k key = Some (Inr r) \<and> unat r = j"
proof -
  have len: "length (buckets_m k) = capacity k" using ok by (rule table_ok_length)
  from find_key_total[OF ok, of key] obtain r where
    r: "find_key k key = Some (Inr r)" "find_post k key (unat (index_from_key k key)) r"
    by blast
  from ok r(2) show ?thesis
  proof (cases rule: find_post_cases)
    case (absent e)
    have "\<forall>x\<in>entries (buckets_m k). \<not> equal_m k key (extract_m k x)"
      using ok pi caps absent(3,4,5) by (rule find_absent_complete)
    moreover have "w \<in> entries (buckets_m k)" using j(1,2) len unfolding entries_nth by auto
    ultimately show ?thesis using j(3) by blast
  next
    case (found w')
    have "equal_m k (extract_m k w) (extract_m k w')"
      using caps j(3) found(5) unfolding capabilities_ok_def by blast
    then have "equiv_entries k w w'" by (simp add: equiv_entries_def)
    then have "j = unat r"
      using unique_keysD[OF u _ _ j(2) found(4)] j(1) found(1) len by simp
    then show ?thesis using r(1) by blast
  qed
qed

lemma find_absent:
  assumes ok: "table_ok k"
    and none: "\<forall>x\<in>entries (buckets_m k). \<not> equal_m k key (extract_m k x)"
  shows "find_key k key = Some (Inr (bucket_count_m k))"
proof -
  have len: "length (buckets_m k) = capacity k" using ok by (rule table_ok_length)
  from find_key_total[OF ok, of key] obtain r where
    r: "find_key k key = Some (Inr r)" "find_post k key (unat (index_from_key k key)) r"
    by blast
  from ok r(2) show ?thesis
  proof (cases rule: find_post_cases)
    case (absent e)
    then show ?thesis using r(1) by simp
  next
    case (found w')
    then have "w' \<in> entries (buckets_m k)" using len unfolding entries_nth by auto
    then show ?thesis using none found(5) by blast
  qed
qed

section \<open>Erasure keeps the probe runs\<close>

text \<open>
  C2. \<open>erase\<close> on a well-formed table in which every live entry's circular scan from its
  ideal index to its slot passes only through occupied slots returns (with any fuel) a
  well-formed table with the same property. One step of the repair loop in a well-formed
  table, with the gap at \<open>e\<close> and an occupied slot \<open>index\<close>: the entry stays when its
  ideal index lies in the arc \<open>(e, index]\<close> and is moved into the gap otherwise, the gap
  then being \<open>index\<close>; at an empty slot the loop stops.
\<close>

theorem erase_keeps_probe_runs:
  assumes "table_ok k"
  shows "(probe_inv k \<longrightarrow>
            (\<exists>k' c. erase n k key = Some (Inr (k', c)) \<and> table_ok k' \<and> probe_inv k')) \<and>
         (\<forall>e index v. unat e < length (buckets_m k) \<and> unat index < length (buckets_m k) \<and>
            e \<noteq> index \<and> buckets_m k ! unat index = Some v \<longrightarrow>
            erase_repair k (Some e) index =
              (if in_arc (length (buckets_m k)) (unat e) (unat index) (ideal k v)
               then erase_repair k (Some e) (index_add k index 1)
               else erase_repair (moved k e index v) (Some index) (index_add k index 1))) \<and>
         (\<forall>erased_index index. unat index < length (buckets_m k) \<and>
            buckets_m k ! unat index = None \<longrightarrow>
            erase_repair k erased_index index = Some (Inr k))"
proof (intro conjI)
  show "probe_inv k \<longrightarrow>
          (\<exists>k' c. erase n k key = Some (Inr (k', c)) \<and> table_ok k' \<and> probe_inv k')"
    using erase_ok[OF assms, of n key] by blast
  show "\<forall>e index v. unat e < length (buckets_m k) \<and> unat index < length (buckets_m k) \<and>
            e \<noteq> index \<and> buckets_m k ! unat index = Some v \<longrightarrow>
            erase_repair k (Some e) index =
              (if in_arc (length (buckets_m k)) (unat e) (unat index) (ideal k v)
               then erase_repair k (Some e) (index_add k index 1)
               else erase_repair (moved k e index v) (Some index) (index_add k index 1))"
    using repair_step[OF assms] by blast
  show "\<forall>erased_index index. unat index < length (buckets_m k) \<and>
            buckets_m k ! unat index = None \<longrightarrow>
            erase_repair k erased_index index = Some (Inr k)"
    using repair_stop by blast
qed

lemma set4_erase_1:
  "erase 0 (set4 [None, Some 1, Some 5, None] 2) 1 = Some (Inr (set4 [None, Some 5, None, None] 1, 1))"
  by (simp add: set4_eq kernel_eval)

theorem erase_keeps_probe_runs_witness:
  "erase 0 (set4 [None, Some 1, Some 5, None] 2) 1 = Some (Inr (set4 [None, Some 5, None, None] 1, 1)) \<and>
   probe_inv (set4 [None, Some 5, None, None] 1) \<and>
   \<not> in_arc 4 1 2 (ideal (set4 [None, None, Some 5, None] 1) 5) \<and>
   erase_repair (set4 [None, None, Some 5, None] 1) (Some 1) 2 =
     erase_repair (moved (set4 [None, None, Some 5, None] 1) 1 2 5) (Some 2) 3"
proof -
  let ?k = "set4 [None, Some 1, Some 5, None] 2"
  let ?k1 = "set4 [None, None, Some 5, None] 1"
  have ok: "table_ok ?k" by (rule set4_table_ok) (simp_all add: occupied_count_def)
  have ok1: "table_ok ?k1" by (rule set4_table_ok) (simp_all add: occupied_count_def)
  have pi1: "probe_inv (set4 [None, Some 5, None, None] 1)"
    using erase_keeps_probe_runs[OF ok, of 0 1] set4_probe_inv set4_erase_1 by auto
  have arc: "\<not> in_arc 4 1 2 (ideal ?k1 5)"
    by (simp add: in_arc_def cdist_def ideal_def index_from_value_def index_from_key_def set4_eq)
  have "unat (1::size_t) < length (buckets_m ?k1) \<and> unat (2::size_t) < length (buckets_m ?k1) \<and>
      (1::size_t) \<noteq> 2 \<and> buckets_m ?k1 ! unat (2::size_t) = Some 5"
    by (simp add: set4_eq)
  then have "erase_repair ?k1 (Some 1) 2 =
      (if in_arc (length (buckets_m ?k1)) (unat (1::size_t)) (unat (2::size_t)) (ideal ?k1 5)
       then erase_repair ?k1 (Some 1) (index_add ?k1 2 1)
       else erase_repair (moved ?k1 1 2 5) (Some 2) (index_add ?k1 2 1))"
    using erase_keeps_probe_runs[OF ok1, of 0 1] by blast
  moreover have "length (buckets_m ?k1) = 4" "index_add ?k1 2 1 = 3"
    by (simp_all add: set4_eq index_add_def)
  ultimately have "erase_repair ?k1 (Some 1) 2 = erase_repair (moved ?k1 1 2 5) (Some 2) 3"
    using arc by simp
  then show ?thesis using set4_erase_1 pi1 arc by simp
qed

section \<open>Round trip\<close>

text \<open>
  C3. In a table that satisfies the invariant of a table built by inserts, with a key
  equality that is an equivalence respected by the hash: after \<open>insert(e)\<close> the lookup of
  the key of \<open>e\<close> returns the position \<open>insert\<close> returned, which is not the end position
  and holds an entry with an equivalent key; a following \<open>erase\<close> of that key returns 1,
  and then the lookup returns the end position.
\<close>

theorem insert_find_erase:
  assumes "table_ok k" "probe_inv k" "unique_keys k" "capabilities_ok k" "capacity k < 2 ^ 63"
  shows "\<exists>k1 it b. insert_value (Suc n) k e = Some (Inr (k1, it, b)) \<and>
           find_key k1 (extract_m k e) = Some (Inr it) \<and> it \<noteq> bucket_count_m k1 \<and>
           (\<exists>w. buckets_m k1 ! unat it = Some w \<and>
                equal_m k (extract_m k e) (extract_m k w)) \<and>
           (\<exists>k2. erase m k1 (extract_m k e) = Some (Inr (k2, 1)) \<and>
                 find_key k2 (extract_m k e) = Some (Inr (bucket_count_m k2)))"
proof -
  let ?key = "extract_m k e"
  from insert_value_ok[OF assms(1,5), of n e] obtain k1 it b where
    r: "insert_value (Suc n) k e = Some (Inr (k1, it, b))" "table_ok k1" "same_functors k1 k"
      "unat it < capacity k1"
      "probe_inv k \<longrightarrow> probe_inv k1"
      "probe_inv k \<and> unique_keys k \<and> capabilities_ok k \<longrightarrow> unique_keys k1"
      "b \<longrightarrow> find_key k (extract_m k e) = Some (Inr (bucket_count_m k)) \<and>
                 buckets_m k1 ! unat it = Some e \<and>
                 unat (size_m k1) = Suc (unat (size_m k)) \<and>
                 entries (buckets_m k1) = insert e (entries (buckets_m k)) \<and>
                 bucket_count_m k1 =
                  (if size_m k = max_size_m k then bucket_count_m k * 2 else bucket_count_m k)"
      "\<not> b \<longrightarrow> k1 = k \<and> find_key k (extract_m k e) = Some (Inr it) \<and>
                 (\<exists>w. buckets_m k ! unat it = Some w \<and>
                      equal_m k (extract_m k e) (extract_m k w))"
    by blast
  have pi1: "probe_inv k1" and u1: "unique_keys k1" using r(5,6) assms by simp_all
  have caps1: "capabilities_ok k1" using assms(4) capabilities_ok_cong[OF r(3)] by simp
  have fn: "equal_m k1 = equal_m k" "extract_m k1 = extract_m k"
    using r(3) by (simp_all add: same_functors_def)
  have refl: "equal_m k ?key ?key" using assms(4) unfolding capabilities_ok_def by blast
  have at: "\<exists>w. buckets_m k1 ! unat it = Some w \<and> equal_m k ?key (extract_m k w)"
    using r(7,8) refl by (cases b) auto
  then obtain w where w: "buckets_m k1 ! unat it = Some w" "equal_m k1 ?key (extract_m k1 w)"
    using fn by auto
  from find_present[OF r(2) pi1 u1 caps1 r(4) w] obtain r' where
    r': "find_key k1 ?key = Some (Inr r')" "unat r' = unat it" by blast
  then have f1: "find_key k1 ?key = Some (Inr it)" by (simp add: word_unat_eq_iff)
  have ne: "it \<noteq> bucket_count_m k1" using r(4) by (auto simp: capacity_def)
  from erase_ok[OF r(2) pi1, of m ?key] f1 ne obtain k2 c where
    k2: "erase m k1 ?key = Some (Inr (k2, c))" "table_ok k2" "same_functors k2 k1" "c = 1"
      "\<forall>x\<in>entries (buckets_m k2).
          \<exists>j<length (buckets_m k1). j \<noteq> unat it \<and> buckets_m k1 ! j = Some x"
    by auto
  have fn2: "equal_m k2 = equal_m k1" "extract_m k2 = extract_m k1"
    using k2(3) by (simp_all add: same_functors_def)
  have len1: "length (buckets_m k1) = capacity k1" using r(2) by (rule table_ok_length)
  have "\<forall>x\<in>entries (buckets_m k2). \<not> equal_m k2 ?key (extract_m k2 x)"
  proof
    fix x assume "x \<in> entries (buckets_m k2)"
    then obtain j where j: "j < length (buckets_m k1)" "j \<noteq> unat it" "buckets_m k1 ! j = Some x"
      using k2(5) by blast
    show "\<not> equal_m k2 ?key (extract_m k2 x)"
    proof
      assume "equal_m k2 ?key (extract_m k2 x)"
      then have "equal_m k1 ?key (extract_m k1 x)" using fn2 by simp
      from find_present[OF r(2) pi1 u1 caps1 _ j(3) this] j(1) len1 obtain r2 where
        "find_key k1 ?key = Some (Inr r2)" "unat r2 = j" by auto
      then show False using f1 j(2) by simp
    qed
  qed
  then have "find_key k2 ?key = Some (Inr (bucket_count_m k2))"
    using find_absent[OF k2(2)] by blast
  then show ?thesis using r(1) f1 ne at k2(1,4) by blast
qed

lemma set4_erase_5:
  "erase 0 (set4 [None, Some 1, Some 5, None] 2) 5 = Some (Inr (set4 [None, Some 1, None, None] 1, 1))"
  by (simp add: set4_eq kernel_eval)

lemma set4_short_probe_inv: "probe_inv (set4 [None, Some 1, None, None] 1)"
  unfolding probe_inv_def probe_run_def
  by (simp add: set4_eq All_less_Suc ideal_def index_from_value_def index_from_key_def
      cdist_def any_entry_def)

lemma set4_short_unique_keys: "unique_keys (set4 [None, Some 1, None, None] 1)"
  unfolding unique_keys_def unique_slots_def
  by (simp add: set4_eq All_less_Suc equiv_entries_def)

theorem insert_find_erase_witness:
  "insert_value (Suc 0) (set4 [None, Some 1, None, None] 1) 5 =
     Some (Inr (set4 [None, Some 1, Some 5, None] 2, 2, True)) \<and>
   find_key (set4 [None, Some 1, Some 5, None] 2) 5 = Some (Inr 2) \<and>
   erase 0 (set4 [None, Some 1, Some 5, None] 2) 5 =
     Some (Inr (set4 [None, Some 1, None, None] 1, 1)) \<and>
   find_key (set4 [None, Some 1, None, None] 1) 5 =
     Some (Inr (bucket_count_m (set4 [None, Some 1, None, None] 1)))"
proof -
  let ?k = "set4 [None, Some 1, None, None] 1"
  have ok: "table_ok ?k" by (rule set4_table_ok) (simp_all add: occupied_count_def)
  have small: "capacity ?k < 2 ^ 63" by (simp add: set4_capacity)
  have ins: "insert_value (Suc 0) ?k 5 = Some (Inr (set4 [None, Some 1, Some 5, None] 2, 2, True))"
    by (simp add: set4_eq kernel_eval)
  have x: "extract_m ?k 5 = 5" by (simp add: set4_eq)
  from insert_find_erase[OF ok set4_short_probe_inv set4_short_unique_keys
      set4_capabilities_ok small, of 0 5 0]
  show ?thesis unfolding x ins using set4_erase_5 by auto
qed

section \<open>The count returned by erase\<close>

text \<open>
  What \<open>erase\<close> returns on a well-formed table with the probe-run invariant: the count is
  1 when \<open>find\<close> returns a position and 0 when \<open>find\<close> returns the end position. For an
  absent key the size and the set of live entries are those of the table before the call,
  and the table is handed back as it was when the test at the end of \<open>erase\<close> does not
  fire; when it fires, the capacity is halved although nothing was removed.
\<close>

lemma erase_count:
  assumes "table_ok k" "probe_inv k"
  shows "\<exists>k' c r. erase n k key = Some (Inr (k', c)) \<and> find_key k key = Some (Inr r) \<and>
           (r \<noteq> bucket_count_m k \<longrightarrow> c = 1) \<and>
           (r = bucket_count_m k \<longrightarrow>
              c = 0 \<and> size_m k' = size_m k \<and>
              entries (buckets_m k') = entries (buckets_m k) \<and>
              (if shrinks k then bucket_count_m k' = bucket_count_m k div 2 else k' = k))"
  using erase_ok[OF assms, of n key] by blast

lemma set4_erase_2:
  "erase 0 (set4 [None, Some 1, Some 5, None] 2) 2 = Some (Inr (set4 [None, Some 1, Some 5, None] 2, 0))"
  by (simp add: set4_eq kernel_eval)

lemma erase_count_set4:
  "find_key (set4 [None, Some 1, Some 5, None] 2) 2 =
     Some (Inr (bucket_count_m (set4 [None, Some 1, Some 5, None] 2))) \<and>
   \<not> shrinks (set4 [None, Some 1, Some 5, None] 2) \<and>
   erase 0 (set4 [None, Some 1, Some 5, None] 2) 2 =
     Some (Inr (set4 [None, Some 1, Some 5, None] 2, 0)) \<and>
   find_key (set4 [None, Some 1, Some 5, None] 2) 5 = Some (Inr 2) \<and>
   erase 0 (set4 [None, Some 1, Some 5, None] 2) 5 =
     Some (Inr (set4 [None, Some 1, None, None] 1, 1))"
proof -
  let ?k = "set4 [None, Some 1, Some 5, None] 2"
  have ok: "table_ok ?k" by (rule set4_table_ok) (simp_all add: occupied_count_def)
  have f2: "find_key ?k 2 = Some (Inr (bucket_count_m ?k))" by (simp add: set4_eq kernel_eval)
  have ns: "\<not> shrinks ?k" by (simp add: shrinks_def set4_eq)
  from erase_count[OF ok set4_probe_inv, of 0 2] f2 ns
  have "erase 0 ?k 2 = Some (Inr (?k, 0))" by auto
  moreover from erase_count[OF ok set4_probe_inv, of 0 5] set4_find_5 set4_erase_5
  have "erase 0 ?k 5 = Some (Inr (set4 [None, Some 1, None, None] 1, 1))" by auto
  ultimately show ?thesis using f2 ns set4_find_5 by simp
qed

section \<open>An absent key in an under-loaded table\<close>

lemma set64_17_eq:
  "set64_17 =
    \<lparr> hash_m = (\<lambda>x. x), equal_m = (=), extract_m = (\<lambda>x. x), mapped_extract_m = (\<lambda>x. x),
      buckets_m = None # map Some [1, 2, 3, 4, 5, 6, 7, 8, 9, 10, 11, 12, 13, 14, 15, 16, 17]
                    @ replicate 46 None,
      min_load_m = Dyadic 10066330 25, max_load_m = Dyadic 11744051 24,
      bucket_count_m = 64, size_m = 17, min_size_m = 19, max_size_m = 44 \<rparr>"
  by (simp add: set64_17_def set_kernel_def kernel_new_def upper_power_of_two_def load_times_def
      min_load_default_def max_load_default_def)

lemma set32_17_eq:
  "set32_17 =
    \<lparr> hash_m = (\<lambda>x. x), equal_m = (=), extract_m = (\<lambda>x. x), mapped_extract_m = (\<lambda>x. x),
      buckets_m = None # map Some [1, 2, 3, 4, 5, 6, 7, 8, 9, 10, 11, 12, 13, 14, 15, 16, 17]
                    @ replicate 14 None,
      min_load_m = Dyadic 10066330 25, max_load_m = Dyadic 11744051 24,
      bucket_count_m = 32, size_m = 17, min_size_m = 9, max_size_m = 22 \<rparr>"
  by (simp add: set32_17_def set_kernel_def kernel_new_def upper_power_of_two_def load_times_def
      min_load_default_def max_load_default_def)

lemma set64_17_find: "find_key set64_17 100 = Some (Inr 64)"
  by (simp add: set64_17_eq kernel_eval)

lemma set64_17_erase: "erase 0 set64_17 100 = Some (Inr (set32_17, 0))"
  by (simp add: set64_17_eq set32_17_eq kernel_eval)

lemma set64_17_reachable:
  "insert_all (Suc 0) (set_kernel 64) [1, 2, 3, 4, 5, 6, 7, 8, 9, 10, 11, 12, 13, 14, 15, 16, 17]
    = Some (Inr set64_17)"
  by (simp add: set64_17_eq set_kernel_def kernel_new_def min_load_default_def
      max_load_default_def kernel_eval)

text \<open>
  The public \<open>insert\<close> of a key that is present returns before any load test: the same
  table is handed back as it was.
\<close>

lemma set64_17_insert_1: "insert_value (Suc 0) set64_17 1 = Some (Inr (set64_17, 1, False))"
  by (simp add: set64_17_eq kernel_eval)

text \<open>
  C4. \<open>erase\<close> of an absent key does not leave the table as it was. The table of capacity
  64 built by inserting the keys 1 to 17 has size 17, below \<open>min_size = 19\<close> and above 16.
  The key 100 is absent (\<open>find\<close> returns the end position), and \<open>erase(100)\<close> returns 0
  with the size still 17, but the test at the end of \<open>erase\<close>, commented
  ``Rehash if this brought us below min load'', runs although the call removed nothing:
  the table handed back has capacity 32 and its slots are those of another bucket vector.
\<close>

theorem erase_absent_shrinks:
  "insert_all (Suc 0) (set_kernel 64) [1, 2, 3, 4, 5, 6, 7, 8, 9, 10, 11, 12, 13, 14, 15, 16, 17]
     = Some (Inr set64_17) \<and>
   find_key set64_17 100 = Some (Inr (bucket_count_m set64_17)) \<and>
   erase 0 set64_17 100 = Some (Inr (set32_17, 0)) \<and>
   size_m set32_17 = size_m set64_17 \<and>
   bucket_count_m set64_17 = 64 \<and> bucket_count_m set32_17 = 32 \<and>
   length (buckets_m set64_17) = 64 \<and> length (buckets_m set32_17) = 32 \<and>
   buckets_m set32_17 \<noteq> buckets_m set64_17"
  using set64_17_reachable set64_17_find set64_17_erase
  by (simp add: set64_17_eq set32_17_eq)

section \<open>Sequences of inserts\<close>

lemma growth_small:
  assumes ok: "table_ok k" and full: "size_m k = max_size_m k"
    and few: "unat (size_m k) \<le> 2 ^ 60"
  shows "unat (bucket_count_m k * 2) < 2 ^ 63"
proof -
  from ok obtain p where p: "p < 64" "bucket_count_m k = 2 ^ p" "capacity k = 2 ^ p"
    by (rule table_ok_pow2)
  have max: "unat (max_size_m k) = 11744051 * 2 ^ p div 2 ^ 24"
    using table_ok_max_size(1)[OF ok] p(3) by simp
  have "p < 62"
  proof (rule ccontr)
    assume "\<not> p < 62"
    then have "(2::nat) ^ 62 \<le> 2 ^ p" by (intro power_increasing) simp_all
    then have "11744051 * (2::nat) ^ 62 \<le> 11744051 * 2 ^ p" by simp
    then have "11744051 * (2::nat) ^ 62 div 2 ^ 24 \<le> 11744051 * 2 ^ p div 2 ^ 24"
      by (rule div_le_mono)
    moreover have "(2::nat) ^ 60 < 11744051 * 2 ^ 62 div 2 ^ 24" by simp
    ultimately show False using few full max by simp
  qed
  then have q: "Suc p < 63" by simp
  then have "Suc p < 64" by simp
  then have "unat ((2::size_t) ^ Suc p) = 2 ^ Suc p" by (rule unat_pow2)
  moreover have "(2::nat) ^ Suc p < 2 ^ 63" using q by (intro power_strict_increasing) simp_all
  ultimately show ?thesis using p(2) by (simp add: mult.commute)
qed

lemma insert_all_ok:
  assumes "table_ok k" "probe_inv k" "unique_keys k" "capabilities_ok k"
    "capacity k < 2 ^ 63" "unat (size_m k) + length vs \<le> 2 ^ 60"
  shows "\<exists>k'. insert_all (Suc n) k vs = Some (Inr k') \<and>
           table_ok k' \<and> probe_inv k' \<and> unique_keys k' \<and> capabilities_ok k'"
  using assms
proof (induction vs arbitrary: k)
  case Nil
  then show ?case by simp
next
  case (Cons v vs)
  from insert_value_ok[OF Cons.prems(1,5), of n v] obtain k1 it b where
    r: "insert_value (Suc n) k v = Some (Inr (k1, it, b))" "table_ok k1" "same_functors k1 k"
      "probe_inv k \<longrightarrow> probe_inv k1"
      "probe_inv k \<and> unique_keys k \<and> capabilities_ok k \<longrightarrow> unique_keys k1"
      "b \<longrightarrow> find_key k (extract_m k v) = Some (Inr (bucket_count_m k)) \<and>
                 buckets_m k1 ! unat it = Some v \<and>
                 unat (size_m k1) = Suc (unat (size_m k)) \<and>
                 entries (buckets_m k1) = insert v (entries (buckets_m k)) \<and>
                 bucket_count_m k1 =
                  (if size_m k = max_size_m k then bucket_count_m k * 2 else bucket_count_m k)"
      "\<not> b \<longrightarrow> k1 = k \<and> find_key k (extract_m k v) = Some (Inr it) \<and>
                 (\<exists>w. buckets_m k ! unat it = Some w \<and>
                      equal_m k (extract_m k v) (extract_m k w))"
    by blast
  have pi1: "probe_inv k1" and u1: "unique_keys k1" using r(4,5) Cons.prems by simp_all
  have caps1: "capabilities_ok k1" using Cons.prems(4) capabilities_ok_cong[OF r(3)] by simp
  have few: "unat (size_m k) \<le> 2 ^ 60" using Cons.prems(6) by simp
  have small1: "capacity k1 < 2 ^ 63"
  proof (cases "b \<and> size_m k = max_size_m k")
    case True
    then have "bucket_count_m k1 = bucket_count_m k * 2" using r(6) by simp
    then show ?thesis using growth_small[OF Cons.prems(1) _ few] True by (simp add: capacity_def)
  next
    case False
    then have "bucket_count_m k1 = bucket_count_m k" using r(6,7) by (cases b) auto
    then show ?thesis using Cons.prems(5) by (simp add: capacity_def)
  qed
  have "unat (size_m k1) \<le> Suc (unat (size_m k))" using r(6,7) by (cases b) auto
  then have budget1: "unat (size_m k1) + length vs \<le> 2 ^ 60" using Cons.prems(6) by simp
  from Cons.IH[OF r(2) pi1 u1 caps1 small1 budget1] show ?case using r(1) by simp
qed

lemma kernel_new_valid:
  assumes "q < 64"
  shows "table_ok (kernel_new (2 ^ q) h eq x m)"
    and "probe_inv (kernel_new (2 ^ q) h eq x m)"
    and "unique_keys (kernel_new (2 ^ q) h eq x m)"
    and "size_m (kernel_new (2 ^ q) h eq x m) = 0"
    and "bucket_count_m (kernel_new (2 ^ q) h eq x m) = 2 ^ q"
proof -
  let ?k = "kernel_new (2 ^ q) h eq x m"
  have k: "?k = \<lparr> hash_m = h, equal_m = eq, extract_m = x, mapped_extract_m = m,
       buckets_m = replicate (unat ((2::size_t) ^ q)) None,
       min_load_m = min_load_default, max_load_m = max_load_default,
       bucket_count_m = 2 ^ q, size_m = 0,
       min_size_m = load_times min_load_default (2 ^ q),
       max_size_m = load_times max_load_default (2 ^ q) \<rparr>"
    unfolding kernel_new_def upper_power_of_two_pow2 Let_def by (rule refl)
  show "table_ok ?k" unfolding k table_ok_def using assms
    by (auto simp: occupied_count_replicate)
  show "probe_inv ?k" unfolding k by (simp add: probe_inv_def)
  show "unique_keys ?k" unfolding k by (simp add: unique_keys_def unique_slots_def)
  show "size_m ?k = 0" unfolding k by simp
  show "bucket_count_m ?k = 2 ^ q" unfolding k by simp
qed

section \<open>Unique keys\<close>

text \<open>
  C7. \<open>insert\<close> preserves the invariant of a table built by inserts: well-formedness, the
  probe-run invariant and that no two live entries have equivalent keys. So every sequence
  of inserts (short enough for the capacity to stay below \<open>2^63\<close>) returns a table with
  unique keys. When the key of the entry is already present (\<open>find\<close> returns a position
  other than the end), \<open>insert\<close> returns the table as it was, with the position of the
  existing entry and the flag false.
\<close>

theorem insert_unique:
  assumes "table_ok k" "probe_inv k" "unique_keys k" "capabilities_ok k"
    "capacity k < 2 ^ 63" "unat (size_m k) + length vs \<le> 2 ^ 60"
  shows "(\<exists>k'. insert_all (Suc n) k vs = Some (Inr k') \<and>
             table_ok k' \<and> probe_inv k' \<and> unique_keys k') \<and>
         (\<exists>k' it b. insert_value (Suc n) k v = Some (Inr (k', it, b)) \<and>
             table_ok k' \<and> probe_inv k' \<and> unique_keys k' \<and>
             (\<forall>r. find_key k (extract_m k v) = Some (Inr r) \<and> r \<noteq> bucket_count_m k \<longrightarrow>
                  k' = k \<and> it = r \<and> \<not> b))"
proof
  show "\<exists>k'. insert_all (Suc n) k vs = Some (Inr k') \<and>
             table_ok k' \<and> probe_inv k' \<and> unique_keys k'"
    using insert_all_ok[OF assms, of n] by blast
  from insert_value_ok[OF assms(1,5), of n v] obtain k' it b where
    r: "insert_value (Suc n) k v = Some (Inr (k', it, b))" "table_ok k'"
      "probe_inv k \<longrightarrow> probe_inv k'"
      "probe_inv k \<and> unique_keys k \<and> capabilities_ok k \<longrightarrow> unique_keys k'"
      "b \<longrightarrow> find_key k (extract_m k v) = Some (Inr (bucket_count_m k)) \<and>
                 buckets_m k' ! unat it = Some v \<and>
                 unat (size_m k') = Suc (unat (size_m k)) \<and>
                 entries (buckets_m k') = insert v (entries (buckets_m k)) \<and>
                 bucket_count_m k' =
                  (if size_m k = max_size_m k then bucket_count_m k * 2 else bucket_count_m k)"
      "\<not> b \<longrightarrow> k' = k \<and> find_key k (extract_m k v) = Some (Inr it) \<and>
                 (\<exists>w. buckets_m k ! unat it = Some w \<and>
                      equal_m k (extract_m k v) (extract_m k w))"
    by blast
  have "\<forall>r. find_key k (extract_m k v) = Some (Inr r) \<and> r \<noteq> bucket_count_m k \<longrightarrow>
                k' = k \<and> it = r \<and> \<not> b"
    using r(5,6) by (cases b) auto
  then show "\<exists>k' it b. insert_value (Suc n) k v = Some (Inr (k', it, b)) \<and>
             table_ok k' \<and> probe_inv k' \<and> unique_keys k' \<and>
             (\<forall>r. find_key k (extract_m k v) = Some (Inr r) \<and> r \<noteq> bucket_count_m k \<longrightarrow>
                  k' = k \<and> it = r \<and> \<not> b)"
    using r(1,2,3,4) assms(2,3,4) by blast
qed

lemma set4_insert_all:
  "insert_all (Suc 0) (set_kernel 4) [1, 5, 1] = Some (Inr (set4 [None, Some 1, Some 5, None] 2))"
  by (simp add: set_kernel_4 set4_eq kernel_eval)

theorem insert_unique_witness:
  "insert_all (Suc 0) (set_kernel 4) [1, 5, 1] = Some (Inr (set4 [None, Some 1, Some 5, None] 2)) \<and>
   unique_keys (set4 [None, Some 1, Some 5, None] 2) \<and>
   find_key (set4 [None, Some 1, Some 5, None] 2) 5 = Some (Inr 2) \<and>
   insert_value (Suc 0) (set4 [None, Some 1, Some 5, None] 2) 5 =
     Some (Inr (set4 [None, Some 1, Some 5, None] 2, 2, False))"
proof -
  let ?ini = "set_kernel 4 :: (size_t, size_t, size_t) kernel"
  let ?k = "set4 [None, Some 1, Some 5, None] 2"
  have k0: "?ini = kernel_new (2 ^ 2) (\<lambda>x. x) (=) (\<lambda>x. x) (\<lambda>x. x)" by (simp add: set_kernel_def)
  have v0: "table_ok ?ini" "probe_inv ?ini" "unique_keys ?ini"
    unfolding k0 by (rule kernel_new_valid, simp)+
  have c0: "capabilities_ok ?ini" unfolding capabilities_ok_def set_kernel_4 by simp
  have s0: "capacity ?ini < 2 ^ 63" "unat (size_m ?ini) + length [1, 5, 1 :: size_t] \<le> 2 ^ 60"
    by (simp_all add: capacity_def set_kernel_4)
  from insert_unique[OF v0 c0 s0, of 0 1] set4_insert_all
  have u: "unique_keys ?k" by auto
  have ok: "table_ok ?k" by (rule set4_table_ok) (simp_all add: occupied_count_def)
  have s: "capacity ?k < 2 ^ 63" "unat (size_m ?k) + length ([] :: size_t list) \<le> 2 ^ 60"
    by (simp_all add: capacity_def set4_eq)
  have f: "find_key ?k (extract_m ?k 5) = Some (Inr 2)" by (simp add: set4_eq kernel_eval)
  have ne: "(2::size_t) \<noteq> bucket_count_m ?k" by (simp add: set4_eq)
  from insert_unique[OF ok set4_probe_inv u set4_capabilities_ok s, of 0 5] f ne
  have "insert_value (Suc 0) ?k 5 = Some (Inr (?k, 2, False))" by auto
  then show ?thesis using set4_insert_all u set4_find_5 by simp
qed

section \<open>Rounding up to a power of two\<close>

lemma spread_step:
  fixes x y :: size_t
  assumes "\<And>n. bit x n \<longleftrightarrow> (\<exists>j<a. bit y (n + j))"
  shows "bit (x OR drop_bit a x) n \<longleftrightarrow> (\<exists>j<2 * a. bit y (n + j))"
proof -
  have "bit (drop_bit a x) n \<longleftrightarrow> (\<exists>j<a. bit y (n + a + j))"
    using assms[of "n + a"] by (simp add: bit_drop_bit_eq add.commute)
  also have "\<dots> \<longleftrightarrow> (\<exists>j. a \<le> j \<and> j < 2 * a \<and> bit y (n + j))"
  proof
    assume "\<exists>j<a. bit y (n + a + j)"
    then obtain j where "j < a" "bit y (n + a + j)" by blast
    then show "\<exists>j. a \<le> j \<and> j < 2 * a \<and> bit y (n + j)"
      by (intro exI[of _ "a + j"]) (simp add: add.assoc)
  next
    assume "\<exists>j. a \<le> j \<and> j < 2 * a \<and> bit y (n + j)"
    then obtain j where j: "a \<le> j" "j < 2 * a" "bit y (n + j)" by blast
    then have "n + a + (j - a) = n + j" by simp
    then show "\<exists>j<a. bit y (n + a + j)"
      using j by (intro exI[of _ "j - a"]) simp
  qed
  finally have d: "bit (drop_bit a x) n \<longleftrightarrow> (\<exists>j. a \<le> j \<and> j < 2 * a \<and> bit y (n + j))" .
  show ?thesis
    unfolding bit_or_iff d assms
    by (metis le_less_linear less_le_trans mult_2 le_add1 not_less)
qed

lemma spread_all:
  fixes y :: size_t
  defines "c \<equiv> (let x = y; x = x OR drop_bit 1 x; x = x OR drop_bit 2 x; x = x OR drop_bit 4 x;
                     x = x OR drop_bit 8 x; x = x OR drop_bit 16 x; x = x OR drop_bit 32 x in x)"
  shows "bit c n \<longleftrightarrow> (\<exists>j<64. bit y (n + j))"
proof -
  define x1 where "x1 = y OR drop_bit 1 y"
  define x2 where "x2 = x1 OR drop_bit 2 x1"
  define x3 where "x3 = x2 OR drop_bit 4 x2"
  define x4 where "x4 = x3 OR drop_bit 8 x3"
  define x5 where "x5 = x4 OR drop_bit 16 x4"
  define x6 where "x6 = x5 OR drop_bit 32 x5"
  have b0: "\<And>n. bit y n \<longleftrightarrow> (\<exists>j<1. bit y (n + j))" by simp
  have b1: "\<And>n. bit x1 n \<longleftrightarrow> (\<exists>j<2. bit y (n + j))"
    unfolding x1_def using spread_step[of y 1 y, OF b0] by simp
  have b2: "\<And>n. bit x2 n \<longleftrightarrow> (\<exists>j<4. bit y (n + j))"
    unfolding x2_def using spread_step[of x1 2 y, OF b1] by simp
  have b3: "\<And>n. bit x3 n \<longleftrightarrow> (\<exists>j<8. bit y (n + j))"
    unfolding x3_def using spread_step[of x2 4 y, OF b2] by simp
  have b4: "\<And>n. bit x4 n \<longleftrightarrow> (\<exists>j<16. bit y (n + j))"
    unfolding x4_def using spread_step[of x3 8 y, OF b3] by simp
  have b5: "\<And>n. bit x5 n \<longleftrightarrow> (\<exists>j<32. bit y (n + j))"
    unfolding x5_def using spread_step[of x4 16 y, OF b4] by simp
  have b6: "\<And>n. bit x6 n \<longleftrightarrow> (\<exists>j<64. bit y (n + j))"
    unfolding x6_def using spread_step[of x5 32 y, OF b5] by simp
  have "c = x6" unfolding c_def Let_def x6_def x5_def x4_def x3_def x2_def x1_def by (rule refl)
  then show ?thesis using b6 by simp
qed

lemma upper_power_of_two_least:
  assumes pos: "0 < x" and le: "x \<le> 2 ^ 63"
  shows "\<exists>L<64. upper_power_of_two x = 2 ^ L \<and> unat x \<le> 2 ^ L \<and>
           (\<forall>j. unat x \<le> 2 ^ j \<longrightarrow> L \<le> j)"
proof -
  define y where "y = x - 1"
  have x1: "1 \<le> unat x" using pos by (simp add: word_less_nat_alt)
  have "(1::size_t) \<le> x" using x1 by (simp add: word_le_nat_alt)
  then have uy: "unat y = unat x - 1" unfolding y_def by (simp add: unat_sub)
  have "unat x \<le> 2 ^ 63" using le by (simp add: word_le_nat_alt)
  then have y63: "unat y < 2 ^ 63" using uy x1 by simp
  define L where "L = (LEAST l. unat y < 2 ^ l)"
  have yL: "unat y < 2 ^ L" unfolding L_def using y63 by (rule LeastI)
  have L63: "L \<le> 63" unfolding L_def using y63 by (rule Least_le)
  have hi: "\<And>m. L \<le> m \<Longrightarrow> \<not> bit y m"
  proof -
    fix m assume "L \<le> m"
    then have "(2::nat) ^ L \<le> 2 ^ m" by (intro power_increasing) simp_all
    then have "unat y < 2 ^ m" using yL by linarith
    then have "unat y div 2 ^ m = 0" by (rule div_less)
    then have "\<not> bit (unat y) m" by (simp add: bit_iff_odd)
    then show "\<not> bit y m" by (simp add: bit_unsigned_iff)
  qed
  have top: "0 < L \<Longrightarrow> bit y (L - 1)"
  proof -
    assume "0 < L"
    then have "L - 1 < L" by simp
    then have "\<not> unat y < 2 ^ (L - 1)" unfolding L_def by (rule not_less_Least)
    moreover have "(2::nat) ^ L = 2 * 2 ^ (L - 1)" using \<open>0 < L\<close> by (cases L) simp_all
    ultimately have "unat y div 2 ^ (L - 1) = 1" using yL by (intro div_nat_eqI) simp_all
    then have "bit (unat y) (L - 1)" by (simp add: bit_iff_odd)
    moreover have "L - 1 < 64" using L63 by simp
    ultimately show "bit y (L - 1)" by (simp add: bit_unsigned_iff)
  qed
  define c where "c = (let x = y; x = x OR drop_bit 1 x; x = x OR drop_bit 2 x;
                     x = x OR drop_bit 4 x; x = x OR drop_bit 8 x; x = x OR drop_bit 16 x;
                     x = x OR drop_bit 32 x in x)"
  have bc: "\<And>n. bit c n \<longleftrightarrow> (\<exists>j<64. bit y (n + j))" unfolding c_def by (rule spread_all)
  have "c = mask L"
  proof (rule bit_eqI)
    fix n assume "possible_bit TYPE(size_t) n"
    then have n64: "n < 64" by simp
    show "bit c n \<longleftrightarrow> bit (mask L :: size_t) n"
    proof
      assume "bit c n"
      then obtain j where "bit y (n + j)" using bc by blast
      then have "n + j < L" using hi[of "n + j"] by (cases "L \<le> n + j") simp_all
      then show "bit (mask L :: size_t) n" using n64 by (simp add: bit_mask_iff)
    next
      assume "bit (mask L :: size_t) n"
      then have nL: "n < L" by (simp add: bit_mask_iff)
      then have "bit y (n + (L - 1 - n))" using top by simp
      moreover have "L - 1 - n < 64" using L63 by simp
      ultimately show "bit c n" using bc by blast
    qed
  qed
  moreover have "upper_power_of_two x = c + 1"
    unfolding upper_power_of_two_def c_def y_def Let_def by (rule refl)
  ultimately have r: "upper_power_of_two x = 2 ^ L" by (simp add: mask_eq_exp_minus_1)
  have "unat x \<le> 2 ^ L" using yL uy x1 by simp
  moreover have "\<forall>j. unat x \<le> 2 ^ j \<longrightarrow> L \<le> j"
  proof (intro allI impI)
    fix j assume "unat x \<le> 2 ^ j"
    then have "unat y < 2 ^ j" using uy x1 by simp
    then show "L \<le> j" unfolding L_def by (rule Least_le)
  qed
  ultimately show ?thesis using r L63 by (intro exI[of _ L]) simp
qed

lemma kernel_new_ok:
  assumes "0 < b" "b \<le> 2 ^ 63"
  shows "table_ok (kernel_new b h eq x m) \<and> probe_inv (kernel_new b h eq x m) \<and>
         unique_keys (kernel_new b h eq x m) \<and> size_m (kernel_new b h eq x m) = 0 \<and>
         (\<exists>L<64. bucket_count_m (kernel_new b h eq x m) = 2 ^ L \<and> unat b \<le> 2 ^ L \<and>
                 (\<forall>j. unat b \<le> 2 ^ j \<longrightarrow> L \<le> j))"
proof -
  from upper_power_of_two_least[OF assms] obtain L where
    L: "L < 64" "upper_power_of_two b = 2 ^ L" "unat b \<le> 2 ^ L"
      "\<forall>j. unat b \<le> 2 ^ j \<longrightarrow> L \<le> j"
    by blast
  have "kernel_new b h eq x m = kernel_new (2 ^ L) h eq x m"
    unfolding kernel_new_def L(2) upper_power_of_two_pow2 by (rule refl)
  then show ?thesis using kernel_new_valid[OF L(1), of h eq x m] L by auto
qed

section \<open>Rehashing loses entries\<close>

text \<open>
  C1. \<open>rehash(count)\<close> compares \<open>bucket_count_\<close> with the requested \<open>count\<close>, not with the
  rounded capacity, to detect a nested rehash. In the table of capacity 4 reached by
  inserting 1 and then 5 (both found, size 2), \<open>rehash(3)\<close> rounds the capacity to 4,
  re-places the entry 1, sees \<open>4 \<noteq> 3\<close> and leaves the loop: the table it returns has
  size 1 and the key 5 is no longer found (\<open>find\<close> returns the end position 4).
  Where the requested count is a power of two and every entry fits under the new
  \<open>max_size\<close>, as in the calls \<open>insert\<close> and \<open>erase\<close> make, nothing is lost
  (\<open>rehash_clean\<close>).
\<close>

theorem rehash_drops_entries:
  "insert_value 0 (set_kernel 4) 1 = Some (Inr (set4 [None, Some 1, None, None] 1, 1, True)) \<and>
   insert_value 0 (set4 [None, Some 1, None, None] 1) 5 =
     Some (Inr (set4 [None, Some 1, Some 5, None] 2, 2, True)) \<and>
   find_key (set4 [None, Some 1, Some 5, None] 2) 5 = Some (Inr 2) \<and>
   rehash 0 (set4 [None, Some 1, Some 5, None] 2) 3 =
     Some (Inr (set4 [None, Some 1, None, None] 1)) \<and>
   size_m (set4 [None, Some 1, None, None] 1) = 1 \<and>
   find_key (set4 [None, Some 1, None, None] 1) 5 = Some (Inr 4)"
  using set4_insert_1 set4_insert_5 set4_find_5 set4_rehash_3 set4_find_5_lost
  by (simp add: set4_eq)

section \<open>Capacity zero\<close>

text \<open>
  C9. \<open>upper_power_of_two(0)\<close> decrements to all ones and increments back to 0, so a
  kernel constructed with bucket count 0, and any table after \<open>rehash(0)\<close>, has capacity
  0 and no buckets: the capacity is neither a power of two nor at least 1. For every
  requested count from 1 to \<open>2^63\<close> the result is the least power of two that is not
  smaller (\<open>upper_power_of_two_least\<close>, \<open>kernel_new_ok\<close>).
\<close>

theorem capacity_zero:
  "upper_power_of_two 0 = 0 \<and>
   bucket_count_m (set_kernel 0) = 0 \<and> buckets_m (set_kernel 0) = [] \<and>
   rehash 0 (set_kernel 4) 0 = Some (Inr (set_kernel 0))"
  by (simp add: set_kernel_0 set_kernel_4 kernel_eval)

section \<open>Clearing\<close>

text \<open>
  C8. \<open>clear\<close> calls the destructor on every bucket, occupied or not: on the freshly
  constructed table of capacity 4 it destroys bucket 0, which holds no entry. Where
  every bucket below \<open>bucket_count_\<close> is occupied the loop goes through, and the table
  left behind has no buckets while \<open>bucket_count_\<close> is still 4, so that a following
  \<open>find\<close> indexes past the end of the vector.
\<close>

theorem clear_destroys_unoccupied:
  "clear (set_kernel 4) = Inl (No_Object 0) \<and>
   clear (set4 [Some 4, Some 1, Some 2, Some 3] 4) = Inr (set4 [] 0) \<and>
   bucket_count_m (set4 [] 0) = 4 \<and> buckets_m (set4 [] 0) = [] \<and>
   find_key (set4 [] 0) 1 = Some (Inl (Out_Of_Range 1))"
  by (simp add: set_kernel_4 set4_eq kernel_eval)

end
